theory Spec2Isabelle
  imports Complex_Main "HOL-Library.Sublist"
begin

section \<open>Configuration\<close>

text \<open>
  The harvesting script \<^verbatim>\<open>recup_urbanisme.py\<close> is embedded function by function.
  Coordinates are Python floats in the source, that is IEEE 754 doubles. A double is
  modelled by the real number it denotes. Where the script subdivides a tile, every
  arithmetic operation is followed by the rounding to the nearest double
  (\<open>to_double\<close> below), as in the source. The tiling generator is modelled in exact
  arithmetic; for the script's own run this is exact: the area of interest has integer
  bounds and the initial tile size is 1.
\<close>

type_synonym bbox = "real \<times> real \<times> real \<times> real"

definition MAX_FEATURES :: nat where
  "MAX_FEATURES = 5000"

definition BBOX_FRANCE :: bbox where
  "BBOX_FRANCE = (-5, 41, 10, 52)"

definition INITIAL_TILE_SIZE :: real where
  "INITIAL_TILE_SIZE = 1"

definition MAX_DEPTH :: nat where
  "MAX_DEPTH = 3"

definition TILE_DIVISION_FACTOR :: nat where
  "TILE_DIVISION_FACTOR = 2"

definition cols_to_keep :: "string list" where
  "cols_to_keep = [''gpu_doc_id'', ''partition'', ''nomfic'', ''geometry'']"

section \<open>The tiling generator\<close>

text \<open>
  \<^verbatim>\<open>generate_tiles\<close> is a generator with two nested \<^verbatim>\<open>while\<close> loops. The script
  always consumes it to the end, so it is modelled by the list of everything it yields, in
  order; an enumeration that never ends is the value \<open>None\<close>. The parameter \<^verbatim>\<open>size\<close>
  is written \<open>tsize\<close>.
\<close>

partial_function (option) generate_tiles_y ::
  "real \<Rightarrow> real \<Rightarrow> real \<Rightarrow> real \<Rightarrow> real \<Rightarrow> bbox list option" where
  "generate_tiles_y x y maxx maxy tsize =
     (if y < maxy
      then Option.bind (generate_tiles_y x (y + tsize) maxx maxy tsize)
             (\<lambda>rest. Some ((x, y, min (x + tsize) maxx, min (y + tsize) maxy) # rest))
      else Some [])"

partial_function (option) generate_tiles_x ::
  "real \<Rightarrow> real \<Rightarrow> real \<Rightarrow> real \<Rightarrow> real \<Rightarrow> bbox list option" where
  "generate_tiles_x x miny maxx maxy tsize =
     (if x < maxx
      then Option.bind (generate_tiles_y x miny maxx maxy tsize)
             (\<lambda>col. Option.bind (generate_tiles_x (x + tsize) miny maxx maxy tsize)
                (\<lambda>rest. Some (col @ rest)))
      else Some [])"

definition generate_tiles ::
  "real \<Rightarrow> real \<Rightarrow> real \<Rightarrow> real \<Rightarrow> real \<Rightarrow> bbox list option" where
  "generate_tiles minx miny maxx maxy tsize = generate_tiles_x minx miny maxx maxy tsize"

declare generate_tiles_y.simps [code]
declare generate_tiles_x.simps [code]

section \<open>Data frames\<close>

text \<open>
  A GeoDataFrame is a list of column names and a list of rows, each row holding one cell
  per column. A cell is an opaque value; \<open>None\<close> is a missing value (NaN). Only the
  operations the script uses are modelled: \<^verbatim>\<open>len\<close>, column selection
  \<^verbatim>\<open>gdf[cols]\<close>, \<^verbatim>\<open>drop(columns=c)\<close> and \<^verbatim>\<open>pd.concat\<close>.
\<close>

type_synonym cell = "string option"

record gdf =
  columns :: "string list"
  rows :: "cell list list"

definition len :: "gdf \<Rightarrow> nat" where
  "len g = length (rows g)"

definition cell_of :: "string list \<Rightarrow> cell list \<Rightarrow> string \<Rightarrow> cell" where
  "cell_of cols r c = (case map_of (zip cols r) c of Some v \<Rightarrow> v | None \<Rightarrow> None)"

text \<open>
  \<^verbatim>\<open>gdf[cols]\<close>. The script calls it only with columns that are present (pandas raises
  KeyError on an absent one).
\<close>

definition getitem_cols :: "gdf \<Rightarrow> string list \<Rightarrow> gdf" where
  "getitem_cols g cols =
     \<lparr>columns = cols, rows = map (\<lambda>r. map (cell_of (columns g) r) cols) (rows g)\<rparr>"

definition drop_column :: "string \<Rightarrow> gdf \<Rightarrow> gdf" where
  "drop_column c g = getitem_cols g (filter (\<lambda>c'. c' \<noteq> c) (columns g))"

text \<open>
  \<^verbatim>\<open>pd.concat(frames, ignore_index=True)\<close>: the columns are the union of the frames'
  columns in order of first appearance, the rows are those of the frames one after the
  other, with a missing value where a frame lacks a column.
\<close>

definition union_columns :: "gdf list \<Rightarrow> string list" where
  "union_columns fs = rev (remdups (rev (concat (map columns fs))))"

definition concat_frames :: "gdf list \<Rightarrow> gdf" where
  "concat_frames fs =
     \<lparr>columns = union_columns fs,
      rows = concat (map (\<lambda>g. map (\<lambda>r. map (cell_of (columns g) r) (union_columns fs)) (rows g)) fs)\<rparr>"

section \<open>The outside world\<close>

text \<open>
  Everything the script does to the outside is an event of a log: a request sent to the
  service, a line printed (with its arguments, not its text), a call of \<^verbatim>\<open>time.sleep\<close>,
  a file written. The remote service is a parameter: it answers a request, knowing
  everything that happened before, with a frame or with a failure (any exception inside
  \<^verbatim>\<open>get_features\<close>).
\<close>

datatype msg =
    MsgError bbox
  | MsgSubdivision bbox nat
  | MsgTotalTiles nat
  | MsgTile nat nat bbox
  | MsgCollected nat nat
  | MsgFinal nat
  | MsgExportDone
  | MsgFileName string
  | MsgNoData

datatype event =
    EvFetch bbox
  | EvPrint msg
  | EvSleep nat
  | EvToFile string gdf
  | EvToCsv string gdf

type_synonym service = "event list \<Rightarrow> bbox \<Rightarrow> gdf option"

definition get_features :: "service \<Rightarrow> bbox \<Rightarrow> event list \<Rightarrow> gdf option \<times> event list" where
  "get_features srv bbox evs =
     (case srv evs bbox of
        Some g \<Rightarrow> (Some g, evs @ [EvFetch bbox])
      | None \<Rightarrow> (None, evs @ [EvFetch bbox, EvPrint (MsgError bbox)]))"

section \<open>Double-precision arithmetic\<close>

text \<open>
  The result of an arithmetic operation on doubles is the exact result rounded to the
  nearest number with a 53-bit significand, a tie going to the one whose significand is
  even. \<open>binade x\<close> is the exponent \<open>e\<close> with \<open>2 ^ e \<le> \<bar>x\<bar> < 2 ^ (e + 1)\<close>, found by
  repeated halving or doubling; 2200 steps reach the exponent of every finite double.
  The exponent range is not bounded in this model: overflow to infinity and the
  subnormal numbers below \<open>2 ^ - 1022\<close> are outside it.
\<close>

definition round_half_even :: "real \<Rightarrow> int" where
  "round_half_even r =
     (let f = \<lfloor>r\<rfloor>; d = r - of_int f
      in if d < 1 / 2 then f else if 1 / 2 < d then f + 1 else if even f then f else f + 1)"

fun binade_from :: "nat \<Rightarrow> real \<Rightarrow> int \<Rightarrow> int" where
  "binade_from 0 x e = e"
| "binade_from (Suc n) x e =
     (if 2 \<le> x then binade_from n (x / 2) (e + 1)
      else if x < 1 then binade_from n (x * 2) (e - 1)
      else e)"

definition binade :: "real \<Rightarrow> int" where
  "binade x = binade_from 2200 \<bar>x\<bar> 0"

definition to_double :: "real \<Rightarrow> real" where
  "to_double x =
     (if x = 0 then 0
      else of_int (round_half_even (x * 2 powi (52 - binade x))) * 2 powi (binade x - 52))"

text \<open>
  The four operations of the source on doubles. An \<^verbatim>\<open>int\<close> operand (the loop index, the
  division factor) is converted exactly.
\<close>

definition fadd :: "real \<Rightarrow> real \<Rightarrow> real" where
  "fadd a b = to_double (a + b)"

definition fsub :: "real \<Rightarrow> real \<Rightarrow> real" where
  "fsub a b = to_double (a - b)"

definition fmul :: "real \<Rightarrow> real \<Rightarrow> real" where
  "fmul a b = to_double (a * b)"

definition fdiv :: "real \<Rightarrow> real \<Rightarrow> real" where
  "fdiv a b = to_double (a / b)"

section \<open>Adaptive subdivision\<close>

text \<open>
  The four sub-regions of a tile, in the order of the two nested \<^verbatim>\<open>for\<close> loops
  (\<open>i\<close> outside, \<open>j\<close> inside).
\<close>

definition sub_bbox :: "bbox \<Rightarrow> nat \<Rightarrow> nat \<Rightarrow> bbox" where
  "sub_bbox bbox i j =
     (case bbox of (minx, miny, maxx, maxy) \<Rightarrow>
        let new_size_x = fdiv (fsub maxx minx) (real TILE_DIVISION_FACTOR);
            new_size_y = fdiv (fsub maxy miny) (real TILE_DIVISION_FACTOR)
        in (fadd minx (fmul (real i) new_size_x),
            fadd miny (fmul (real j) new_size_y),
            fadd minx (fmul (real (i + 1)) new_size_x),
            fadd miny (fmul (real (j + 1)) new_size_y)))"

definition sub_bboxes :: "bbox \<Rightarrow> bbox list" where
  "sub_bboxes bbox =
     concat (map (\<lambda>i. map (\<lambda>j. sub_bbox bbox i j) [0..<TILE_DIVISION_FACTOR])
                 [0..<TILE_DIVISION_FACTOR])"

definition available_cols :: "gdf \<Rightarrow> string list" where
  "available_cols g = filter (\<lambda>c. c \<in> set (columns g)) cols_to_keep"

text \<open>
  \<^verbatim>\<open>process_tile\<close>; \<open>process_subs\<close> is its loop over the sub-regions, extending
  \<^verbatim>\<open>results\<close> with the result of each recursive call.
\<close>

function process_tile :: "service \<Rightarrow> bbox \<Rightarrow> nat \<Rightarrow> event list \<Rightarrow> gdf list \<times> event list"
  and process_subs :: "service \<Rightarrow> bbox list \<Rightarrow> nat \<Rightarrow> event list \<Rightarrow> gdf list \<times> event list"
where
  "process_tile srv bbox depth evs =
     (case get_features srv bbox evs of
        (None, evs1) \<Rightarrow> ([], evs1)
      | (Some g, evs1) \<Rightarrow>
          if len g < MAX_FEATURES \<or> depth \<ge> MAX_DEPTH
          then ([getitem_cols g (available_cols g)], evs1)
          else process_subs srv (sub_bboxes bbox) (depth + 1)
                 (evs1 @ [EvPrint (MsgSubdivision bbox (depth + 1))]))"
| "process_subs srv [] depth evs = ([], evs)"
| "process_subs srv (b # bs) depth evs =
     (case process_tile srv b depth evs of
        (r, evs1) \<Rightarrow>
          (case process_subs srv bs depth evs1 of
             (rs, evs2) \<Rightarrow> (r @ rs, evs2)))"
  by pat_completeness auto
termination
  by (relation "inv_image (less_than <*lex*> less_than)
        (\<lambda>a. case a of
           Inl (srv, bbox, depth, evs) \<Rightarrow> (2 * (Suc MAX_DEPTH - depth), 0)
         | Inr (srv, bs, depth, evs) \<Rightarrow> (2 * (Suc MAX_DEPTH - depth) + 1, length bs))")
     (auto simp: MAX_DEPTH_def)

text \<open>
  The same traversal with a ghost annotation: every accepted frame is returned as fetched,
  paired with the depth of the call that accepted it. Theorem \<open>process_tile_depths_erase\<close>
  shows that forgetting the annotation gives \<open>process_tile\<close>.
\<close>

function process_tile_depths ::
    "service \<Rightarrow> bbox \<Rightarrow> nat \<Rightarrow> event list \<Rightarrow> (nat \<times> gdf) list \<times> event list"
  and process_subs_depths ::
    "service \<Rightarrow> bbox list \<Rightarrow> nat \<Rightarrow> event list \<Rightarrow> (nat \<times> gdf) list \<times> event list"
where
  "process_tile_depths srv bbox depth evs =
     (case get_features srv bbox evs of
        (None, evs1) \<Rightarrow> ([], evs1)
      | (Some g, evs1) \<Rightarrow>
          if len g < MAX_FEATURES \<or> depth \<ge> MAX_DEPTH
          then ([(depth, g)], evs1)
          else process_subs_depths srv (sub_bboxes bbox) (depth + 1)
                 (evs1 @ [EvPrint (MsgSubdivision bbox (depth + 1))]))"
| "process_subs_depths srv [] depth evs = ([], evs)"
| "process_subs_depths srv (b # bs) depth evs =
     (case process_tile_depths srv b depth evs of
        (r, evs1) \<Rightarrow>
          (case process_subs_depths srv bs depth evs1 of
             (rs, evs2) \<Rightarrow> (r @ rs, evs2)))"
  by pat_completeness auto
termination
  by (relation "inv_image (less_than <*lex*> less_than)
        (\<lambda>a. case a of
           Inl (srv, bbox, depth, evs) \<Rightarrow> (2 * (Suc MAX_DEPTH - depth), 0)
         | Inr (srv, bs, depth, evs) \<Rightarrow> (2 * (Suc MAX_DEPTH - depth) + 1, length bs))")
     (auto simp: MAX_DEPTH_def)

section \<open>The harvest loop and the export\<close>

record harvest_state =
  all_features :: "gdf list"
  total_collected :: nat
  events :: "event list"

text \<open>The inner loop \<^verbatim>\<open>for gdf in tile_features\<close>.\<close>

fun collect :: "gdf list \<Rightarrow> harvest_state \<Rightarrow> harvest_state" where
  "collect [] st = st"
| "collect (g # gs) st =
     collect gs
       (if len g > 0
        then st\<lparr>all_features := all_features st @ [g],
                total_collected := total_collected st + len g,
                events := events st @ [EvPrint (MsgCollected (len g) (total_collected st + len g))]\<rparr>
        else st)"

text \<open>
  The loop over the initial tiles; \<open>i\<close> is the index of \<^verbatim>\<open>enumerate\<close>. The
  \<^verbatim>\<open>continue\<close> of an empty \<^verbatim>\<open>tile_features\<close> goes to the next tile at once.
\<close>

fun harvest_loop :: "service \<Rightarrow> nat \<Rightarrow> nat \<Rightarrow> bbox list \<Rightarrow> harvest_state \<Rightarrow> harvest_state" where
  "harvest_loop srv total_tiles i [] st = st"
| "harvest_loop srv total_tiles i (bbox # rest) st =
     (case process_tile srv bbox 0 (events st @ [EvPrint (MsgTile (i + 1) total_tiles bbox)]) of
        (tile_features, evs1) \<Rightarrow>
          if tile_features = []
          then harvest_loop srv total_tiles (i + 1) rest (st\<lparr>events := evs1\<rparr>)
          else (let st1 = collect tile_features (st\<lparr>events := evs1\<rparr>)
                in harvest_loop srv total_tiles (i + 1) rest
                     (st1\<lparr>events := events st1 @ [EvSleep 1]\<rparr>)))"

text \<open>
  The export block. Writing a file is an event; a write that fails is outside the model.
\<close>

definition export_block :: "harvest_state \<Rightarrow> event list" where
  "export_block st =
     (if all_features st \<noteq> []
      then (let final_gdf = concat_frames (all_features st);
                evs1 = events st @ [EvPrint (MsgFinal (len final_gdf)),
                                    EvToFile ''urbanisme_complet.geojson'' final_gdf];
                evs2 = (if ''geometry'' \<in> set (columns final_gdf)
                        then evs1 @ [EvToCsv ''urbanisme_attributs.csv''
                                       (drop_column ''geometry'' final_gdf)]
                        else evs1 @ [EvToCsv ''urbanisme_attributs.csv'' final_gdf])
            in evs2 @ [EvPrint MsgExportDone,
                       EvPrint (MsgFileName ''urbanisme_complet.geojson''),
                       EvPrint (MsgFileName ''urbanisme_attributs.csv'')])
      else events st @ [EvPrint MsgNoData])"

text \<open>
  The module level of the script, for any area of interest and tile size; \<open>main\<close> is the
  script with its constants. The generator is run twice, first to count the tiles, then
  by the loop. The result is the log of the run, \<open>None\<close> when the tile enumeration
  never ends.
\<close>

definition initial_state :: "nat \<Rightarrow> harvest_state" where
  "initial_state total_tiles =
     \<lparr>all_features = [], total_collected = 0, events = [EvPrint (MsgTotalTiles total_tiles)]\<rparr>"

definition run :: "service \<Rightarrow> bbox \<Rightarrow> real \<Rightarrow> event list option" where
  "run srv area tsize =
     (case area of (minx, miny, maxx, maxy) \<Rightarrow>
        (case generate_tiles minx miny maxx maxy tsize of
           None \<Rightarrow> None
         | Some counted \<Rightarrow>
             (let total_tiles = length counted in
              case generate_tiles minx miny maxx maxy tsize of
                None \<Rightarrow> None
              | Some tiles \<Rightarrow>
                  Some (export_block
                         (harvest_loop srv total_tiles 0 tiles (initial_state total_tiles))))))"

definition main :: "service \<Rightarrow> event list option" where
  "main srv = run srv BBOX_FRANCE INITIAL_TILE_SIZE"

section \<open>Notions used to state the properties\<close>

text \<open>The number of requests in a log, and the bound on the requests of one tile.\<close>

fun is_fetch :: "event \<Rightarrow> bool" where
  "is_fetch (EvFetch b) = True"
| "is_fetch _ = False"

definition fetch_count :: "event list \<Rightarrow> nat" where
  "fetch_count evs = length (filter is_fetch evs)"

fun calls_bound :: "nat \<Rightarrow> nat" where
  "calls_bound 0 = 1"
| "calls_bound (Suc n) = 1 + 4 * calls_bound n"

text \<open>
  The events \<open>process_tile\<close> may emit when called at depth \<open>d\<close>: requests, error
  messages, and subdivision messages announcing a level between \<open>d + 1\<close> and \<open>MAX_DEPTH\<close>.
\<close>

fun tile_event :: "nat \<Rightarrow> event \<Rightarrow> bool" where
  "tile_event d (EvFetch b) = True"
| "tile_event d (EvPrint (MsgError b)) = True"
| "tile_event d (EvPrint (MsgSubdivision b n)) = (d < n \<and> n \<le> MAX_DEPTH)"
| "tile_event d _ = False"

text \<open>Example frames and services, for evaluating the model on concrete runs.\<close>

definition capped_frame :: gdf where
  "capped_frame = \<lparr>columns = [], rows = replicate MAX_FEATURES []\<rparr>"

definition small_frame :: gdf where
  "small_frame = \<lparr>columns = [''gpu_doc_id'', ''insee'', ''geometry''],
                  rows = [[Some ''D1'', Some ''75056'', Some ''POLYGON'']]\<rparr>"

definition srv_capped_at :: "bbox \<Rightarrow> service" where
  "srv_capped_at big evs b = (if b = big then Some capped_frame else Some small_frame)"

definition srv_failing_at :: "bbox \<Rightarrow> service" where
  "srv_failing_at bad evs b = (if b = bad then None else Some small_frame)"

definition kept_frame :: gdf where
  "kept_frame = \<lparr>columns = [''gpu_doc_id'', ''geometry''], rows = [[Some ''D1'', Some ''POLYGON'']]\<rparr>"



definition area :: "bbox \<Rightarrow> real" where
  "area b = (case b of (minx, miny, maxx, maxy) \<Rightarrow> (maxx - minx) * (maxy - miny))"


text \<open>
  The four quarters of a tile obtained by bisecting both axes in exact arithmetic, in the
  order of \<open>sub_bboxes\<close>; this is what the specification says of the subdivision, to be
  compared with what \<open>sub_bboxes\<close> computes.
\<close>

definition bisect :: "bbox \<Rightarrow> bbox list" where
  "bisect b = (case b of (minx, miny, maxx, maxy) \<Rightarrow>
     [(minx, miny, (minx + maxx) / 2, (miny + maxy) / 2),
      (minx, (miny + maxy) / 2, (minx + maxx) / 2, maxy),
      ((minx + maxx) / 2, miny, maxx, (miny + maxy) / 2),
      ((minx + maxx) / 2, (miny + maxy) / 2, maxx, maxy)])"

text \<open>
  A coordinate on the grid of step \<open>1 / 2 ^ k\<close>, of magnitude at most \<open>2 ^ 20\<close>, and a tile
  with its four coordinates there. The initial tiles of the script have integer
  coordinates between -5 and 52: they are on the grid of step 1.
\<close>

definition on_grid :: "nat \<Rightarrow> real \<Rightarrow> bool" where
  "on_grid k c \<longleftrightarrow> c * 2 ^ k \<in> \<int> \<and> \<bar>c\<bar> \<le> 2 ^ 20"

definition grid_box :: "nat \<Rightarrow> bbox \<Rightarrow> bool" where
  "grid_box k b = (case b of (minx, miny, maxx, maxy) \<Rightarrow>
     on_grid k minx \<and> on_grid k miny \<and> on_grid k maxx \<and> on_grid k maxy)"

text \<open>
  The invariant of the harvest loop, and the kinds of events of a log.
\<close>

definition harvest_inv :: "harvest_state \<Rightarrow> bool" where
  "harvest_inv st \<longleftrightarrow>
     total_collected st = sum_list (map len (all_features st))
     \<and> (\<forall>g \<in> set (all_features st). 0 < len g)"

fun is_write :: "event \<Rightarrow> bool" where
  "is_write (EvToFile name g) = True"
| "is_write (EvToCsv name g) = True"
| "is_write _ = False"

fun is_sleep :: "event \<Rightarrow> bool" where
  "is_sleep (EvSleep n) = True"
| "is_sleep _ = False"

definition sleep_count :: "event list \<Rightarrow> nat" where
  "sleep_count evs = length (filter is_sleep evs)"

fun is_collected_msg :: "event \<Rightarrow> bool" where
  "is_collected_msg (EvPrint (MsgCollected n m)) = True"
| "is_collected_msg _ = False"

definition harvest_event :: "event \<Rightarrow> bool" where
  "harvest_event e \<longleftrightarrow> \<not> is_write e \<and> e \<noteq> EvPrint MsgNoData \<and> (is_sleep e \<longrightarrow> e = EvSleep 1)"

definition empty_frame :: gdf where
  "empty_frame = \<lparr>columns = [], rows = []\<rparr>"

definition srv_empty_at :: "bbox \<Rightarrow> service" where
  "srv_empty_at sea evs b = (if b = sea then Some empty_frame else Some small_frame)"

definition attrs_frame :: gdf where
  "attrs_frame = \<lparr>columns = [''gpu_doc_id''], rows = [[Some ''D1'']]\<rparr>"

text \<open>
  The frame \<open>F\<close> holds the records of the frame \<open>g\<close> as its rows \<open>off\<close>,
  \<open>off + 1\<close>, ..., with the same cell in every column of \<open>g\<close> that \<open>keep\<close> selects.
\<close>

definition records_at :: "nat \<Rightarrow> (string \<Rightarrow> bool) \<Rightarrow> gdf \<Rightarrow> gdf \<Rightarrow> bool" where
  "records_at off keep F g \<longleftrightarrow>
     off + len g \<le> len F
     \<and> (\<forall>i < len g. \<forall>c \<in> set (columns g). keep c \<longrightarrow>
           cell_of (columns F) (rows F ! (off + i)) c = cell_of (columns g) (rows g ! i) c)"

section \<open>Properties of the tiling generator\<close>

lemma ceil_step:
  fixes a t :: real
  assumes "0 < t"
  shows "nat \<lceil>(a - t) / t\<rceil> = nat \<lceil>a / t\<rceil> - 1"
proof -
  have "(a - t) / t = a / t - 1" using assms by (simp add: diff_divide_distrib)
  then show ?thesis by simp
qed

text \<open>With a positive step the inner loop yields one tile per step of \<open>y\<close>.\<close>

lemma generate_tiles_y_closed:
  assumes "0 < tsize"
  shows "generate_tiles_y x y maxx maxy tsize =
    Some (map (\<lambda>k. (x, y + real k * tsize, min (x + tsize) maxx, min (y + real k * tsize + tsize) maxy))
              [0..<nat \<lceil>(maxy - y) / tsize\<rceil>])"
proof (induction "nat \<lceil>(maxy - y) / tsize\<rceil>" arbitrary: y)
  case 0
  then have "(maxy - y) / tsize \<le> 0" by simp
  then have "\<not> y < maxy" using assms by (simp add: divide_le_0_iff)
  then show ?case using 0 by (subst generate_tiles_y.simps) simp
next
  case (Suc n)
  have pos: "0 < (maxy - y) / tsize"
    using Suc(2) by (smt (verit) ceiling_le_zero nat_le_0 Zero_not_Suc)
  then have lt: "y < maxy" using assms by (simp add: zero_less_divide_iff)
  have n: "n = nat \<lceil>(maxy - (y + tsize)) / tsize\<rceil>"
    using ceil_step[OF assms, of "maxy - y"] Suc(2) by (simp add: algebra_simps)
  have upt: "[0..<Suc n] = 0 # map Suc [0..<n]"
    by (simp add: upt_conv_Cons map_Suc_upt del: upt_Suc)
  show ?case
    apply (subst generate_tiles_y.simps)
    apply (simp only: Suc(1)[OF n] lt if_True Suc(2)[symmetric] n[symmetric] upt)
    apply (simp add: algebra_simps comp_def)
    done
qed

lemma generate_tiles_x_closed:
  assumes "0 < tsize"
  shows "generate_tiles_x x miny maxx maxy tsize =
    Some (concat (map (\<lambda>i. map (\<lambda>k. (x + real i * tsize, miny + real k * tsize,
                                       min (x + real i * tsize + tsize) maxx,
                                       min (miny + real k * tsize + tsize) maxy))
                                [0..<nat \<lceil>(maxy - miny) / tsize\<rceil>])
              [0..<nat \<lceil>(maxx - x) / tsize\<rceil>]))"
proof (induction "nat \<lceil>(maxx - x) / tsize\<rceil>" arbitrary: x)
  case 0
  then have "(maxx - x) / tsize \<le> 0" by simp
  then have "\<not> x < maxx" using assms by (simp add: divide_le_0_iff)
  then show ?case using 0 by (subst generate_tiles_x.simps) simp
next
  case (Suc n)
  have pos: "0 < (maxx - x) / tsize"
    using Suc(2) by (smt (verit) ceiling_le_zero nat_le_0 Zero_not_Suc)
  then have lt: "x < maxx" using assms by (simp add: zero_less_divide_iff)
  have n: "n = nat \<lceil>(maxx - (x + tsize)) / tsize\<rceil>"
    using ceil_step[OF assms, of "maxx - x"] Suc(2) by (simp add: algebra_simps)
  have upt: "[0..<Suc n] = 0 # map Suc [0..<n]"
    by (simp add: upt_conv_Cons map_Suc_upt del: upt_Suc)
  show ?case
    apply (subst generate_tiles_x.simps)
    apply (simp only: Suc(1)[OF n] generate_tiles_y_closed[OF assms] lt if_True
             Suc(2)[symmetric] n[symmetric] upt)
    apply (simp add: algebra_simps comp_def)
    done
qed

text \<open>
  With a step that is not positive the outer loop never leaves \<open>x < maxx\<close>: by fixpoint
  induction, no result is ever returned.
\<close>

lemmas generate_tiles_x_induct =
  generate_tiles_x.raw_induct[where xa = "((((x, miny), maxx), maxy), tsize)" for x miny maxx maxy tsize,
    unfolded prod.case, rotated, consumes 1]

lemma generate_tiles_x_stuck:
  assumes "generate_tiles_x x miny maxx maxy tsize = Some ts"
  shows "\<not> (tsize \<le> 0 \<and> x < maxx)"
  using assms
proof (induction rule: generate_tiles_x_induct)
  case (1 gx x miny maxx maxy tsize r)
  show ?case
  proof
    assume h: "tsize \<le> 0 \<and> x < maxx"
    with 1(2) obtain rest where "gx (x + tsize) miny maxx maxy tsize = Some rest"
      by (auto split: bind_splits)
    from 1(1)[OF this] h show False by simp
  qed
qed






text \<open>
  Claim C9. With a positive tile size and non-empty bounds the enumeration ends and yields
  \<open>\<lceil>(maxx - minx) / size\<rceil> * \<lceil>(maxy - miny) / size\<rceil>\<close> tiles; with a tile size that is
  zero or negative and \<open>minx < maxx\<close> it never ends.
\<close>

theorem generate_tiles_count:
  "(0 < tsize \<and> minx < maxx \<and> miny < maxy \<longrightarrow>
      (\<exists>ts. generate_tiles minx miny maxx maxy tsize = Some ts
         \<and> int (length ts) = \<lceil>(maxx - minx) / tsize\<rceil> * \<lceil>(maxy - miny) / tsize\<rceil>))
   \<and> (tsize \<le> 0 \<and> minx < maxx \<longrightarrow> generate_tiles minx miny maxx maxy tsize = None)"
proof (intro conjI impI)
  assume a: "0 < tsize \<and> minx < maxx \<and> miny < maxy"
  then have t: "0 < tsize" by simp
  have px: "0 \<le> \<lceil>(maxx - minx) / tsize\<rceil>" and py: "0 \<le> \<lceil>(maxy - miny) / tsize\<rceil>"
  proof -
    have "0 < (maxx - minx) / tsize" "0 < (maxy - miny) / tsize" using a by simp_all
    then show "0 \<le> \<lceil>(maxx - minx) / tsize\<rceil>" "0 \<le> \<lceil>(maxy - miny) / tsize\<rceil>"
      by linarith+
  qed
  show "\<exists>ts. generate_tiles minx miny maxx maxy tsize = Some ts
         \<and> int (length ts) = \<lceil>(maxx - minx) / tsize\<rceil> * \<lceil>(maxy - miny) / tsize\<rceil>"
    unfolding generate_tiles_def generate_tiles_x_closed[OF t]
    using px py by (simp add: length_concat comp_def sum_list_triv)
next
  assume a: "tsize \<le> 0 \<and> minx < maxx"
  show "generate_tiles minx miny maxx maxy tsize = None"
  proof (cases "generate_tiles minx miny maxx maxy tsize")
    case None
    then show ?thesis .
  next
    case (Some ts)
    from generate_tiles_x_stuck[OF Some[unfolded generate_tiles_def]] a show ?thesis by simp
  qed
qed

theorem generate_tiles_count_witness:
  "(0 :: real) < 1 \<and> (-5 :: real) < 10 \<and> (41 :: real) < 52
   \<and> (\<exists>ts. generate_tiles (-5) 41 10 52 1 = Some ts \<and> length ts = 165)
   \<and> (0 :: real) \<le> 0 \<and> generate_tiles (-5) 41 10 52 0 = None"
  using generate_tiles_count[of 1 "-5" 10 41 52] generate_tiles_count[of 0 "-5" 10 41 52]
  by simp

text \<open>
  On the script's own constants the enumeration ends, so the script produces a log.
\<close>

lemma main_terminates: "\<exists>evs. main srv = Some evs"
  by (simp add: main_def run_def BBOX_FRANCE_def INITIAL_TILE_SIZE_def generate_tiles_def
        generate_tiles_x_closed Let_def)

section \<open>Properties of the rounding\<close>

text \<open>
  The exponent found by \<open>binade\<close> is the right one, and a number with a significand of
  at most 53 bits is its own rounding.
\<close>

lemma two_powi_less_cancel: "(2 :: real) powi a < 2 powi b \<Longrightarrow> a < b"
  using power_int_increasing[of b a "2 :: real"] by (cases "a < b") auto

lemma two_powi_le_cancel: "(2 :: real) powi a \<le> 2 powi b \<Longrightarrow> a \<le> b"
  using power_int_strict_increasing[of b a "2 :: real"] by (cases "a \<le> b") auto

lemma two_powi_Suc: "(2 :: real) powi (k + 1) = 2 * 2 powi k"
  by (simp add: power_int_add)

lemma two_powi_pred: "(2 :: real) powi (k - 1) = 2 powi k / 2"
  by (simp add: power_int_diff)

lemma binade_from_eq:
  "2 powi k \<le> x \<Longrightarrow> x < 2 powi (k + 1) \<Longrightarrow> \<bar>k\<bar> \<le> int n \<Longrightarrow> binade_from n x e = e + k"
proof (induction n arbitrary: x e k)
  case 0
  then show ?case by simp
next
  case (Suc n)
  show ?case
  proof (cases "2 \<le> x")
    case True
    have "(2 :: real) powi 1 < 2 powi (k + 1)" using True Suc.prems(2) by simp
    then have k: "0 < k" using two_powi_less_cancel[of 1 "k + 1"] by simp
    have "binade_from n (x / 2) (e + 1) = (e + 1) + (k - 1)"
    proof (rule Suc.IH)
      show "2 powi (k - 1) \<le> x / 2" using Suc.prems(1) by (simp add: two_powi_pred)
      show "x / 2 < 2 powi (k - 1 + 1)" using Suc.prems(2) by (simp add: two_powi_Suc)
      show "\<bar>k - 1\<bar> \<le> int n" using k Suc.prems(3) by simp
    qed
    then show ?thesis using True by simp
  next
    case False
    show ?thesis
    proof (cases "x < 1")
      case True
      have "(2 :: real) powi k < 2 powi 0" using True Suc.prems(1) by simp
      then have k: "k < 0" by (rule two_powi_less_cancel)
      have "binade_from n (x * 2) (e - 1) = (e - 1) + (k + 1)"
      proof (rule Suc.IH)
        show "2 powi (k + 1) \<le> x * 2" using Suc.prems(1) by (simp add: two_powi_Suc)
        show "x * 2 < 2 powi (k + 1 + 1)"
          using Suc.prems(2) two_powi_Suc[of "k + 1"] two_powi_Suc[of k] by simp
        show "\<bar>k + 1\<bar> \<le> int n" using k Suc.prems(3) by simp
      qed
      then show ?thesis using True False by simp
    next
      case F2: False
      have "(2 :: real) powi k < 2 powi 1" using False Suc.prems(1) by simp
      then have "k < 1" by (rule two_powi_less_cancel)
      moreover have "(2 :: real) powi 0 < 2 powi (k + 1)" using F2 Suc.prems(2) by simp
      then have "0 < k + 1" by (rule two_powi_less_cancel)
      ultimately have "k = 0" by simp
      then show ?thesis using False F2 by simp
    qed
  qed
qed

lemma binade_eq:
  "2 powi k \<le> \<bar>x\<bar> \<Longrightarrow> \<bar>x\<bar> < 2 powi (k + 1) \<Longrightarrow> \<bar>k\<bar> \<le> 2200 \<Longrightarrow> binade x = k"
  unfolding binade_def using binade_from_eq[of k "\<bar>x\<bar>" 2200 0] by simp

lemma to_double_eval:
  assumes "2 powi k \<le> \<bar>x\<bar>" "\<bar>x\<bar> < 2 powi (k + 1)" "\<bar>k\<bar> \<le> 2200"
  shows "to_double x = of_int (round_half_even (x * 2 powi (52 - k))) * 2 powi (k - 52)"
proof -
  have "(0 :: real) < 2 powi k" by simp
  then have "0 < \<bar>x\<bar>" using assms(1) by (rule less_le_trans)
  then have "x \<noteq> 0" by simp
  then show ?thesis by (simp add: to_double_def binade_eq[OF assms])
qed

lemma round_half_even_of_int [simp]: "round_half_even (of_int n) = n"
  by (simp add: round_half_even_def)

lemma to_double_0 [simp]: "to_double 0 = 0"
  by (simp add: to_double_def)

lemma binade_exists:
  fixes x :: real
  assumes "x \<noteq> 0"
  shows "\<exists>k. 2 powi k \<le> \<bar>x\<bar> \<and> \<bar>x\<bar> < 2 powi (k + 1)"
proof -
  have p: "0 < \<bar>x\<bar>" using assms by simp
  let ?k = "\<lfloor>log 2 \<bar>x\<bar>\<rfloor>"
  have "2 powr (of_int ?k) \<le> \<bar>x\<bar> \<and> \<bar>x\<bar> < 2 powr (of_int ?k + 1)"
    using floor_log_eq_powr_iff[of "\<bar>x\<bar>" 2 ?k] p by simp
  moreover have "2 powr (of_int ?k) = (2 :: real) powi ?k" by (simp add: powr_real_of_int')
  moreover have "2 powr (of_int ?k + 1) = (2 :: real) powi (?k + 1)"
    using powr_real_of_int'[of "2 :: real" "?k + 1"] by simp
  ultimately show ?thesis by auto
qed

lemma to_double_exact:
  assumes x: "x = of_int n * 2 powi j" and n: "\<bar>n\<bar> < 2 ^ 53" and j: "\<bar>j\<bar> \<le> 2000"
  shows "to_double x = x"
proof (cases "n = 0")
  case True
  then show ?thesis using x by simp
next
  case False
  then have nz: "x \<noteq> 0" using x by simp
  from binade_exists[OF nz] obtain k where k: "2 powi k \<le> \<bar>x\<bar>" "\<bar>x\<bar> < 2 powi (k + 1)" by blast
  have ax: "\<bar>x\<bar> = of_int \<bar>n\<bar> * 2 powi j" using x by (simp add: abs_mult)
  have "1 \<le> \<bar>n\<bar>" using False by simp
  then have "(1 :: real) \<le> of_int \<bar>n\<bar>" by linarith
  then have "(2 :: real) powi j \<le> \<bar>x\<bar>" unfolding ax
    using mult_right_mono[of 1 "of_int \<bar>n\<bar> :: real" "2 powi j"] by simp
  with k(2) have "(2 :: real) powi j < 2 powi (k + 1)" by simp
  then have lo: "j \<le> k" using two_powi_less_cancel[of j "k + 1"] by simp
  have "(of_int \<bar>n\<bar> :: real) < 2 ^ 53" using n by (metis of_int_less_iff of_int_numeral of_int_power)
  then have "\<bar>x\<bar> < 2 ^ 53 * 2 powi j" unfolding ax by (simp add: mult_strict_right_mono)
  also have "\<dots> = 2 powi (53 + j)" by (simp add: power_int_add)
  finally have "(2 :: real) powi k < 2 powi (53 + j)" using k(1) by simp
  then have hi: "k < 53 + j" by (rule two_powi_less_cancel)
  have kb: "\<bar>k\<bar> \<le> 2200" using lo hi j by simp
  have s: "j + 52 - k \<ge> 0" using hi by simp
  have "x * 2 powi (52 - k) = of_int n * 2 powi (j + 52 - k)"
    unfolding x by (simp add: power_int_add power_int_diff field_simps)
  also have "\<dots> = of_int (n * 2 ^ nat (j + 52 - k))"
    using s by (simp add: power_int_nonneg_exp)
  finally have i: "x * 2 powi (52 - k) = of_int (n * 2 ^ nat (j + 52 - k))" .
  have r: "round_half_even (x * 2 powi (52 - k)) = n * 2 ^ nat (j + 52 - k)"
    unfolding i by (rule round_half_even_of_int)
  have "to_double x = of_int (n * 2 ^ nat (j + 52 - k)) * 2 powi (k - 52)"
    unfolding to_double_eval[OF k kb] r ..
  also have "\<dots> = of_int n * 2 powi (j + 52 - k) * 2 powi (k - 52)"
    using s by (simp add: power_int_nonneg_exp)
  also have "\<dots> = x" unfolding x by (simp add: power_int_add power_int_diff field_simps)
  finally show ?thesis .
qed

text \<open>
  On a grid of step \<open>1 / 2 ^ k\<close> with \<open>k \<le> 28\<close> no operation of \<open>sub_bbox\<close> rounds, and
  \<open>sub_bboxes\<close> is the exact bisection.
\<close>

lemma to_double_dyadic:
  assumes "c * 2 ^ m \<in> \<int>" "\<bar>c\<bar> \<le> 2 ^ 23" "m \<le> 29"
  shows "to_double c = c"
proof -
  from assms(1) obtain n :: int where n: "c * 2 ^ m = of_int n" by (auto elim: Ints_cases)
  have c: "c = of_int n * 2 powi (- int m)"
    using n by (simp add: power_int_minus field_simps)
  have "\<bar>of_int n :: real\<bar> = \<bar>c\<bar> * 2 ^ m" using n by (simp add: abs_mult flip: n)
  also have "\<dots> \<le> 2 ^ 23 * 2 ^ m" using assms(2) by (simp add: mult_right_mono)
  also have "\<dots> \<le> 2 ^ 23 * (2 :: real) ^ 29"
    using power_increasing[of m 29 "2 :: real"] assms(3) by simp
  also have "\<dots> < 2 ^ 53" by simp
  finally have "\<bar>of_int n :: real\<bar> < 2 ^ 53" .
  then have "(of_int \<bar>n\<bar> :: real) < of_int (2 ^ 53)" by simp
  then have nb: "\<bar>n\<bar> < 2 ^ 53" by (simp only: of_int_less_iff)
  show ?thesis
    by (rule to_double_exact[OF c nb]) (use assms(3) in simp)
qed

lemma on_gridD: "on_grid k c \<Longrightarrow> c * 2 ^ k \<in> \<int>"
  by (simp add: on_grid_def)

lemma on_grid_abs: "on_grid k c \<Longrightarrow> \<bar>c\<bar> \<le> 2 ^ 20"
  by (simp add: on_grid_def)

lemma grid_Suc:
  fixes c :: real
  assumes a: "c * 2 ^ k \<in> \<int>"
  shows "c * 2 ^ Suc k \<in> \<int>"
proof -
  have "c * 2 ^ Suc k = (c * 2 ^ k) * 2" by simp
  also have "\<dots> \<in> \<int>" by (rule Ints_mult[OF a]) simp
  finally show ?thesis .
qed

lemma grid_half:
  fixes c :: real
  shows "c * 2 ^ k \<in> \<int> \<Longrightarrow> (c / 2) * 2 ^ Suc k \<in> \<int>"
  by simp

lemma grid_add:
  fixes a b :: real
  shows "a * 2 ^ m \<in> \<int> \<Longrightarrow> b * 2 ^ m \<in> \<int> \<Longrightarrow> (a + b) * 2 ^ m \<in> \<int>"
  by (simp add: distrib_right)

lemma grid_diff:
  fixes a b :: real
  shows "a * 2 ^ m \<in> \<int> \<Longrightarrow> b * 2 ^ m \<in> \<int> \<Longrightarrow> (a - b) * 2 ^ m \<in> \<int>"
  by (simp add: left_diff_distrib)

lemma grid_scale:
  fixes a :: real
  assumes a: "a * 2 ^ m \<in> \<int>"
  shows "(real i * a) * 2 ^ m \<in> \<int>"
proof -
  have "(real i * a) * 2 ^ m = of_nat i * (a * 2 ^ m)" by simp
  also have "\<dots> \<in> \<int>" by (rule Ints_mult[OF Ints_of_nat a])
  finally show ?thesis .
qed

text \<open>One axis of \<open>sub_bbox\<close>: on the grid every operation is exact.\<close>

lemma axis_exact:
  assumes a: "on_grid k a" and b: "on_grid k b" and k: "k \<le> 28" and i: "i \<le> 2"
  shows "fadd a (fmul (real i) (fdiv (fsub b a) (real TILE_DIVISION_FACTOR)))
           = a + real i * ((b - a) / 2)"
proof -
  note ga = on_gridD[OF a] and gb = on_gridD[OF b]
  note ba = on_grid_abs[OF a] and bb = on_grid_abs[OF b]
  have m: "Suc k \<le> 29" using k by simp
  have d1: "\<bar>b - a\<bar> \<le> 2 ^ 21" using ba bb by simp
  have s1: "fsub b a = b - a"
    unfolding fsub_def
    by (rule to_double_dyadic[OF grid_Suc[OF grid_diff[OF gb ga]] _ m]) (use d1 in simp)
  have s2: "fdiv (b - a) (real TILE_DIVISION_FACTOR) = (b - a) / 2"
    unfolding fdiv_def TILE_DIVISION_FACTOR_def
    using to_double_dyadic[OF grid_half[OF grid_diff[OF gb ga]] _ m] d1 by simp
  have ri: "real i \<le> 2" using i by simp
  have d3: "\<bar>real i * ((b - a) / 2)\<bar> \<le> 2 ^ 21"
  proof -
    have "\<bar>real i * ((b - a) / 2)\<bar> = real i * (\<bar>b - a\<bar> / 2)" by (simp add: abs_mult)
    also have "\<dots> \<le> 2 * (\<bar>b - a\<bar> / 2)" using ri by (intro mult_right_mono) simp_all
    also have "\<dots> \<le> 2 ^ 21" using d1 by simp
    finally show ?thesis .
  qed
  have g3: "(real i * ((b - a) / 2)) * 2 ^ Suc k \<in> \<int>"
    by (rule grid_scale[OF grid_half[OF grid_diff[OF gb ga]]])
  have s3: "fmul (real i) ((b - a) / 2) = real i * ((b - a) / 2)"
    unfolding fmul_def
    by (rule to_double_dyadic[OF g3 _ m]) (use d3 in simp)
  have s4: "fadd a (real i * ((b - a) / 2)) = a + real i * ((b - a) / 2)"
    unfolding fadd_def
    by (rule to_double_dyadic[OF grid_add[OF grid_Suc[OF ga] g3] _ m]) (use ba d3 in simp)
  show ?thesis by (simp only: s1 s2 s3 s4)
qed

lemma upt_TILE_DIVISION_FACTOR: "[0..<TILE_DIVISION_FACTOR] = [0, 1]"
  by (simp add: TILE_DIVISION_FACTOR_def upt_conv_Cons del: upt_Suc)

lemma sub_bboxes_list:
  "sub_bboxes b = [sub_bbox b 0 0, sub_bbox b 0 1, sub_bbox b 1 0, sub_bbox b 1 1]"
  by (simp add: sub_bboxes_def upt_TILE_DIVISION_FACTOR)

lemma sub_bbox_exact:
  assumes g: "grid_box k (minx, miny, maxx, maxy)" and k: "k \<le> 28" and i: "i \<le> 1" and j: "j \<le> 1"
  shows "sub_bbox (minx, miny, maxx, maxy) i j
           = (minx + real i * ((maxx - minx) / 2), miny + real j * ((maxy - miny) / 2),
              minx + real (i + 1) * ((maxx - minx) / 2), miny + real (j + 1) * ((maxy - miny) / 2))"
proof -
  from g have x0: "on_grid k minx" and y0: "on_grid k miny" and x1: "on_grid k maxx" and y1: "on_grid k maxy"
    by (simp_all add: grid_box_def)
  have i1: "i \<le> 2" "i + 1 \<le> 2" using i by simp_all
  have j1: "j \<le> 2" "j + 1 \<le> 2" using j by simp_all
  show ?thesis
    unfolding sub_bbox_def prod.case Let_def
    by (simp only: axis_exact[OF x0 x1 k i1(1)] axis_exact[OF x0 x1 k i1(2)]
                   axis_exact[OF y0 y1 k j1(1)] axis_exact[OF y0 y1 k j1(2)])
qed

lemma sub_bboxes_bisect:
  assumes g: "grid_box k b" and k: "k \<le> 28"
  shows "sub_bboxes b = bisect b"
proof -
  obtain minx miny maxx maxy where b: "b = (minx, miny, maxx, maxy)" by (cases b) auto
  note e = sub_bbox_exact[OF g[unfolded b] k]
  show ?thesis
    unfolding sub_bboxes_list b bisect_def prod.case
    by (simp add: e field_simps)
qed




section \<open>Properties of the subdivision\<close>

lemma fetch_count_append [simp]: "fetch_count (xs @ ys) = fetch_count xs + fetch_count ys"
  by (simp add: fetch_count_def)

lemma fetch_count_simps [simp]:
  "fetch_count [] = 0"
  "fetch_count (e # evs) = (if is_fetch e then 1 else 0) + fetch_count evs"
  by (simp_all add: fetch_count_def)

lemma calls_bound_pos: "Suc 0 \<le> calls_bound n"
  by (cases n) simp_all

lemma length_sub_bboxes: "length (sub_bboxes b) = 4"
  by (simp add: sub_bboxes_def TILE_DIVISION_FACTOR_def numeral_2_eq_2)

lemma tile_event_mono: "tile_event (Suc d) e \<Longrightarrow> tile_event d e"
  by (induction d e rule: tile_event.induct) simp_all

lemma get_features_emits:
  "\<exists>new. snd (get_features srv b evs) = evs @ new \<and> list_all (tile_event d) new \<and> fetch_count new = 1"
  by (auto simp: get_features_def split: option.splits)

lemma process_tile_emits:
  "\<exists>new. snd (process_tile srv bbox depth evs) = evs @ new \<and> list_all (tile_event depth) new
       \<and> fetch_count new \<le> calls_bound (MAX_DEPTH - depth)"
  "\<exists>new. snd (process_subs srv bs depth evs) = evs @ new \<and> list_all (tile_event (depth - 1)) new
       \<and> fetch_count new \<le> length bs * calls_bound (MAX_DEPTH - depth)"
proof (induction srv bbox depth evs and srv bs depth evs rule: process_tile_process_subs.induct)
  case (1 srv bbox depth evs)
  obtain r evs1 where gf: "get_features srv bbox evs = (r, evs1)"
    by (cases "get_features srv bbox evs")
  from get_features_emits[of srv bbox evs depth] gf
  obtain n1 where n1: "evs1 = evs @ n1" "list_all (tile_event depth) n1" "fetch_count n1 = 1"
    by auto
  show ?case
  proof (cases r)
    case None
    then show ?thesis using gf n1 calls_bound_pos[of "MAX_DEPTH - depth"] by simp
  next
    case (Some g)
    show ?thesis
    proof (cases "len g < MAX_FEATURES \<or> MAX_DEPTH \<le> depth")
      case True
      then show ?thesis using gf n1 Some calls_bound_pos[of "MAX_DEPTH - depth"] by auto
    next
      case False
      then have d: "MAX_DEPTH - depth = Suc (MAX_DEPTH - (depth + 1))" by arith
      from 1[OF gf[symmetric] Some False]
      obtain n2 where n2:
        "snd (process_subs srv (sub_bboxes bbox) (depth + 1)
               (evs1 @ [EvPrint (MsgSubdivision bbox (depth + 1))]))
         = (evs1 @ [EvPrint (MsgSubdivision bbox (depth + 1))]) @ n2"
        "list_all (tile_event depth) n2"
        "fetch_count n2 \<le> 4 * calls_bound (MAX_DEPTH - (depth + 1))"
        by (auto simp: length_sub_bboxes)
      have lvl: "tile_event depth (EvPrint (MsgSubdivision bbox (depth + 1)))"
        using False by simp
      have res: "snd (process_tile srv bbox depth evs)
            = evs @ (n1 @ [EvPrint (MsgSubdivision bbox (depth + 1))] @ n2)"
        using gf Some False n2(1) n1(1) by simp
      show ?thesis
        apply (rule exI[of _ "n1 @ [EvPrint (MsgSubdivision bbox (depth + 1))] @ n2"])
        using res n1 n2 lvl d by simp
    qed
  qed
next
  case (2 srv depth evs)
  then show ?case by simp
next
  case (3 srv b bs depth evs)
  obtain r evs1 where pt: "process_tile srv b depth evs = (r, evs1)"
    by (cases "process_tile srv b depth evs")
  obtain rs evs2 where ps: "process_subs srv bs depth evs1 = (rs, evs2)"
    by (cases "process_subs srv bs depth evs1")
  from 3(1) pt obtain n1 where n1: "evs1 = evs @ n1" "list_all (tile_event depth) n1"
    "fetch_count n1 \<le> calls_bound (MAX_DEPTH - depth)" by auto
  from 3(2)[OF pt[symmetric]] ps obtain n2 where n2: "evs2 = evs1 @ n2"
    "list_all (tile_event (depth - 1)) n2"
    "fetch_count n2 \<le> length bs * calls_bound (MAX_DEPTH - depth)" by auto
  have w: "list_all (tile_event (depth - 1)) n1"
  proof (cases depth)
    case 0
    then show ?thesis using n1(2) by simp
  next
    case (Suc k)
    then show ?thesis using n1(2) by (auto simp: list_all_iff intro: tile_event_mono)
  qed
  show ?case
    apply (rule exI[of _ "n1 @ n2"])
    using pt ps n1 n2 w by simp
qed

lemma calls_bound_3: "calls_bound 3 = 85"
  by (simp add: numeral_3_eq_3)

lemma get_features_count:
  "fetch_count (snd (get_features srv b evs)) = Suc (fetch_count evs)"
  by (auto simp: get_features_def split: option.splits)

lemma calls_exact:
  "(\<forall>evs b. \<exists>g. srv evs b = Some g \<and> MAX_FEATURES \<le> len g) \<longrightarrow>
     fetch_count (snd (process_tile srv bbox depth evs))
       = fetch_count evs + calls_bound (MAX_DEPTH - depth)"
  "(\<forall>evs b. \<exists>g. srv evs b = Some g \<and> MAX_FEATURES \<le> len g) \<longrightarrow>
     fetch_count (snd (process_subs srv bs depth evs))
       = fetch_count evs + length bs * calls_bound (MAX_DEPTH - depth)"
proof (induction srv bbox depth evs and srv bs depth evs rule: process_tile_process_subs.induct)
  case (1 srv bbox depth evs)
  show ?case
  proof
    assume a: "\<forall>evs b. \<exists>g. srv evs b = Some g \<and> MAX_FEATURES \<le> len g"
    then obtain g where g: "srv evs bbox = Some g" "MAX_FEATURES \<le> len g" by blast
    have gf: "get_features srv bbox evs = (Some g, evs @ [EvFetch bbox])"
      using g by (simp add: get_features_def)
    show "fetch_count (snd (process_tile srv bbox depth evs))
            = fetch_count evs + calls_bound (MAX_DEPTH - depth)"
    proof (cases "MAX_DEPTH \<le> depth")
      case True
      then show ?thesis using gf g by simp
    next
      case False
      then have d: "MAX_DEPTH - depth = Suc (MAX_DEPTH - (depth + 1))" by arith
      have nf: "\<not> (len g < MAX_FEATURES \<or> MAX_DEPTH \<le> depth)" using False g by simp
      from 1[OF gf[symmetric] refl nf] a
      show ?thesis using gf nf by (simp add: length_sub_bboxes d del: process_subs.simps)
    qed
  qed
next
  case (2 srv depth evs)
  then show ?case by simp
next
  case (3 srv b bs depth evs)
  obtain r evs1 where pt: "process_tile srv b depth evs = (r, evs1)"
    by (cases "process_tile srv b depth evs")
  from 3(1) 3(2)[OF pt[symmetric]] pt
  show ?case by (auto split: prod.splits)
qed

lemma len_small [simp]: "len small_frame = 1"
  by (simp add: small_frame_def len_def)
lemma len_capped [simp]: "len capped_frame = MAX_FEATURES"
  by (simp add: capped_frame_def len_def)

lemma kept_small: "getitem_cols small_frame (available_cols small_frame)
  = \<lparr>columns = [''gpu_doc_id'', ''geometry''], rows = [[Some ''D1'', Some ''POLYGON'']]\<rparr>"
  by (simp add: small_frame_def getitem_cols_def available_cols_def cols_to_keep_def cell_of_def)

lemma sub_bboxes_unit: "sub_bboxes (0, 0, 1, 1) = [(0, 0, 1/2, 1/2), (0, 1/2, 1/2, 1), (1/2, 0, 1, 1/2), (1/2, 1/2, 1, 1)]"
proof -
  have g: "grid_box 0 (0, 0, 1, 1)" by (simp add: grid_box_def on_grid_def)
  have "sub_bboxes (0, 0, 1, 1) = bisect (0, 0, 1, 1)"
    by (rule sub_bboxes_bisect[OF g]) simp
  then show ?thesis by (simp add: bisect_def)
qed

lemma kept_small': "getitem_cols small_frame (available_cols small_frame) = kept_frame"
  by (simp add: kept_small kept_frame_def)

lemma len_kept [simp]: "len kept_frame = 1"
  by (simp add: kept_frame_def len_def)

text \<open>
  Claim C2. Called at depth 0, \<open>process_tile\<close> only extends the log, sends at most
  1 + 4 + 16 + 64 = 85 requests whatever the service answers, and every subdivision it
  announces is to a level between 1 and \<open>MAX_DEPTH\<close>.
\<close>

theorem process_tile_bounded:
  "\<exists>new. snd (process_tile srv bbox 0 evs) = evs @ new
     \<and> fetch_count new \<le> 85
     \<and> (\<forall>b n. EvPrint (MsgSubdivision b n) \<in> set new \<longrightarrow> 1 \<le> n \<and> n \<le> MAX_DEPTH)"
proof -
  from process_tile_emits(1)[of srv bbox 0 evs]
  obtain new where new: "snd (process_tile srv bbox 0 evs) = evs @ new"
    "list_all (tile_event 0) new" "fetch_count new \<le> calls_bound (MAX_DEPTH - 0)"
    by blast
  have "fetch_count new \<le> 85"
    using new(3) calls_bound_3 by (simp add: MAX_DEPTH_def)
  moreover have "\<forall>b n. EvPrint (MsgSubdivision b n) \<in> set new \<longrightarrow> 1 \<le> n \<and> n \<le> MAX_DEPTH"
  proof (intro allI impI)
    fix b n assume "EvPrint (MsgSubdivision b n) \<in> set new"
    with new(2) have "tile_event 0 (EvPrint (MsgSubdivision b n))" by (auto simp: list_all_iff)
    then show "1 \<le> n \<and> n \<le> MAX_DEPTH" by simp
  qed
  ultimately show ?thesis using new(1) by blast
qed

theorem process_tile_bounded_witness:
  "snd (process_tile (srv_capped_at (0, 0, 1, 1)) (0, 0, 1, 1) 0 [])
     = [EvFetch (0, 0, 1, 1), EvPrint (MsgSubdivision (0, 0, 1, 1) 1),
        EvFetch (0, 0, 1/2, 1/2), EvFetch (0, 1/2, 1/2, 1),
        EvFetch (1/2, 0, 1, 1/2), EvFetch (1/2, 1/2, 1, 1)]
   \<and> (1 :: nat) \<le> 1 \<and> 1 \<le> MAX_DEPTH
   \<and> fetch_count (snd (process_tile (srv_capped_at (0, 0, 1, 1)) (0, 0, 1, 1) 0 [])) \<le> 85
   \<and> fetch_count (snd (process_tile (\<lambda>evs b. Some capped_frame) (0, 45, 1, 46) 0 [])) = 85"
proof -
  let ?log = "[EvFetch (0, 0, 1, 1), EvPrint (MsgSubdivision (0, 0, 1, 1) 1),
        EvFetch (0, 0, 1/2, 1/2), EvFetch (0, 1/2, 1/2, 1),
        EvFetch (1/2, 0, 1, 1/2), EvFetch (1/2, 1/2, 1, 1)]"
  have l: "snd (process_tile (srv_capped_at (0, 0, 1, 1)) (0, 0, 1, 1) 0 []) = ?log"
    by (simp add: srv_capped_at_def get_features_def sub_bboxes_unit MAX_DEPTH_def MAX_FEATURES_def)
  from process_tile_bounded[of "srv_capped_at (0, 0, 1, 1)" "(0, 0, 1, 1)" "[]"]
  obtain new where new: "snd (process_tile (srv_capped_at (0, 0, 1, 1)) (0, 0, 1, 1) 0 []) = [] @ new"
    "fetch_count new \<le> 85"
    "\<forall>b n. EvPrint (MsgSubdivision b n) \<in> set new \<longrightarrow> 1 \<le> n \<and> n \<le> MAX_DEPTH"
    by blast
  from new(1) l have n: "new = ?log" by simp
  have "EvPrint (MsgSubdivision (0, 0, 1, 1) 1) \<in> set new" unfolding n by simp
  with new(3) have lv: "(1 :: nat) \<le> 1 \<and> 1 \<le> MAX_DEPTH" by blast
  have c: "fetch_count (snd (process_tile (srv_capped_at (0, 0, 1, 1)) (0, 0, 1, 1) 0 [])) \<le> 85"
    using new(1) new(2) by simp
  have "\<forall>evs b. \<exists>g. (\<lambda>evs b. Some capped_frame) evs b = Some g \<and> MAX_FEATURES \<le> len g"
    by simp
  with calls_exact(1)[of "\<lambda>evs b. Some capped_frame" "(0, 45, 1, 46)" 0 "[]"]
  have "fetch_count (snd (process_tile (\<lambda>evs b. Some capped_frame) (0, 45, 1, 46) 0 [])) = 85"
    by (simp add: MAX_DEPTH_def numeral_3_eq_3)
  with l lv c show ?thesis by simp
qed

text \<open>Forgetting the depth annotation gives \<open>process_tile\<close>.\<close>

lemma process_tile_depths_erase:
  "process_tile srv bbox depth evs =
     (map (\<lambda>(d, g). getitem_cols g (available_cols g)) (fst (process_tile_depths srv bbox depth evs)),
      snd (process_tile_depths srv bbox depth evs))"
  "process_subs srv bs depth evs =
     (map (\<lambda>(d, g). getitem_cols g (available_cols g)) (fst (process_subs_depths srv bs depth evs)),
      snd (process_subs_depths srv bs depth evs))"
proof (induction srv bbox depth evs and srv bs depth evs rule: process_tile_depths_process_subs_depths.induct)
  case (1 srv bbox depth evs)
  then show ?case
    by (auto split: prod.splits option.splits)
next
  case (2 srv depth evs)
  then show ?case by simp
next
  case (3 srv b bs depth evs)
  then show ?case
    by (auto split: prod.splits)
qed

text \<open>
  Every annotated frame was accepted at a depth between the depth of the call and
  \<open>MAX_DEPTH\<close>, below the cap unless at \<open>MAX_DEPTH\<close> or deeper.
\<close>

lemma process_tile_depths_accept:
  "(d', g) \<in> set (fst (process_tile_depths srv bbox depth evs)) \<Longrightarrow>
     depth \<le> d' \<and> (depth \<le> MAX_DEPTH \<longrightarrow> d' \<le> MAX_DEPTH) \<and> (len g < MAX_FEATURES \<or> MAX_DEPTH \<le> d')"
  "(d', g) \<in> set (fst (process_subs_depths srv bs depth evs)) \<Longrightarrow>
     depth \<le> d' \<and> (depth \<le> MAX_DEPTH \<longrightarrow> d' \<le> MAX_DEPTH) \<and> (len g < MAX_FEATURES \<or> MAX_DEPTH \<le> d')"
proof (induction srv bbox depth evs and srv bs depth evs rule: process_tile_depths_process_subs_depths.induct)
  case (1 srv bbox depth evs)
  then show ?case
    by (auto split: prod.splits option.splits if_splits)
next
  case (2 srv depth evs)
  then show ?case by simp
next
  case (3 srv b bs depth evs)
  then show ?case
    by (auto split: prod.splits)
qed

section \<open>Properties of the harvest loop\<close>

lemma len_getitem_cols [simp]: "len (getitem_cols g cols) = len g"
  by (simp add: len_def getitem_cols_def)

lemma collect_all_features:
  "all_features (collect gs st) = all_features st @ filter (\<lambda>g. 0 < len g) gs"
  by (induction gs arbitrary: st) auto

lemma collect_total:
  "total_collected (collect gs st) = total_collected st + sum_list (map len (filter (\<lambda>g. 0 < len g) gs))"
  by (induction gs arbitrary: st) auto

lemma harvest_loop_append:
  "harvest_loop srv total_tiles i (xs @ ys) st
     = harvest_loop srv total_tiles (i + length xs) ys (harvest_loop srv total_tiles i xs st)"
proof (induction xs arbitrary: i st)
  case Nil
  then show ?case by simp
next
  case (Cons b xs)
  show ?case
    by (cases "process_tile srv b 0 (events st @ [EvPrint (MsgTile (i + 1) total_tiles b)])")
       (simp add: Cons Let_def)
qed

lemma harvest_step_features:
  "all_features (harvest_loop srv total_tiles i [b] st)
     = all_features st @ filter (\<lambda>g. 0 < len g)
         (fst (process_tile srv b 0 (events st @ [EvPrint (MsgTile (i + 1) total_tiles b)])))"
  by (cases "process_tile srv b 0 (events st @ [EvPrint (MsgTile (i + 1) total_tiles b)])")
     (simp add: Let_def collect_all_features)

lemma harvest_loop_features:
  "\<exists>more. all_features (harvest_loop srv total_tiles i tiles st) = all_features st @ more
     \<and> (\<forall>f \<in> set more. 0 < len f \<and> (\<exists>b \<in> set tiles. \<exists>evs. f \<in> set (fst (process_tile srv b 0 evs))))"
proof (induction tiles arbitrary: i st)
  case Nil
  then show ?case by simp
next
  case (Cons b tiles)
  let ?st1 = "harvest_loop srv total_tiles i [b] st"
  have split: "harvest_loop srv total_tiles i (b # tiles) st = harvest_loop srv total_tiles (i + 1) tiles ?st1"
    using harvest_loop_append[of srv total_tiles i "[b]" tiles st] by simp
  from Cons[of "i + 1" ?st1] obtain more where more:
    "all_features (harvest_loop srv total_tiles (i + 1) tiles ?st1) = all_features ?st1 @ more"
    "\<forall>f \<in> set more. 0 < len f \<and> (\<exists>b \<in> set tiles. \<exists>evs. f \<in> set (fst (process_tile srv b 0 evs)))"
    by blast
  show ?case
    apply (rule exI[of _ "filter (\<lambda>g. 0 < len g)
         (fst (process_tile srv b 0 (events st @ [EvPrint (MsgTile (i + 1) total_tiles b)]))) @ more"])
    unfolding split more(1) harvest_step_features
    using more(2) by auto
qed

lemma harvest_loop_mono:
  "\<exists>more. all_features (harvest_loop srv total_tiles i tiles st) = all_features st @ more"
  using harvest_loop_features[of srv total_tiles i tiles st] by blast

text \<open>
  Claim C1. The frames \<open>process_tile\<close> returns at depth 0 are the annotated ones with the
  keep-list applied; each has the row count of the frame as fetched, which is below
  \<open>MAX_FEATURES\<close> unless the frame was accepted at depth exactly \<open>MAX_DEPTH\<close>. Every frame
  the harvest loop accumulates, starting from nothing, is such a frame of one of the tiles.
\<close>

theorem accepted_below_cap_or_at_max_depth:
  "fst (process_tile srv bbox 0 evs)
     = map (\<lambda>(d, g). getitem_cols g (available_cols g)) (fst (process_tile_depths srv bbox 0 evs))
   \<and> (\<forall>(d, g) \<in> set (fst (process_tile_depths srv bbox 0 evs)).
         len (getitem_cols g (available_cols g)) = len g \<and> (len g < MAX_FEATURES \<or> d = MAX_DEPTH))
   \<and> (all_features st = [] \<longrightarrow>
        (\<forall>f \<in> set (all_features (harvest_loop srv total_tiles i tiles st)).
           \<exists>b \<in> set tiles. \<exists>evs' d g.
              (d, g) \<in> set (fst (process_tile_depths srv b 0 evs'))
              \<and> f = getitem_cols g (available_cols g)
              \<and> (len f < MAX_FEATURES \<or> d = MAX_DEPTH)))"
proof (intro conjI)
  show e: "fst (process_tile srv bbox 0 evs)
     = map (\<lambda>(d, g). getitem_cols g (available_cols g)) (fst (process_tile_depths srv bbox 0 evs))"
    for bbox evs
    by (subst process_tile_depths_erase(1)) simp
  show d: "\<forall>(d, g) \<in> set (fst (process_tile_depths srv bbox 0 evs)).
         len (getitem_cols g (available_cols g)) = len g \<and> (len g < MAX_FEATURES \<or> d = MAX_DEPTH)"
    for bbox evs
    using process_tile_depths_accept(1)[of _ _ srv bbox 0 evs] by fastforce
  show "all_features st = [] \<longrightarrow>
        (\<forall>f \<in> set (all_features (harvest_loop srv total_tiles i tiles st)).
           \<exists>b \<in> set tiles. \<exists>evs' d g.
              (d, g) \<in> set (fst (process_tile_depths srv b 0 evs'))
              \<and> f = getitem_cols g (available_cols g)
              \<and> (len f < MAX_FEATURES \<or> d = MAX_DEPTH))"
  proof (intro impI ballI)
    fix f assume empty: "all_features st = []"
      and f: "f \<in> set (all_features (harvest_loop srv total_tiles i tiles st))"
    from harvest_loop_features[of srv total_tiles i tiles st] empty f
    obtain b evs' where b: "b \<in> set tiles" "f \<in> set (fst (process_tile srv b 0 evs'))"
      by auto
    from b(2) obtain dd g where dg: "(dd, g) \<in> set (fst (process_tile_depths srv b 0 evs'))"
      "f = getitem_cols g (available_cols g)"
      unfolding e by auto
    from d[of b evs'] dg(1) have "len g < MAX_FEATURES \<or> dd = MAX_DEPTH" by auto
    then show "\<exists>b \<in> set tiles. \<exists>evs' d g.
              (d, g) \<in> set (fst (process_tile_depths srv b 0 evs'))
              \<and> f = getitem_cols g (available_cols g)
              \<and> (len f < MAX_FEATURES \<or> d = MAX_DEPTH)"
      using b(1) dg by auto
  qed
qed

theorem accepted_below_cap_or_at_max_depth_witness:
  "fst (process_tile_depths (srv_capped_at (0, 0, 1, 1)) (0, 0, 1, 1) 0 [])
     = [(1, small_frame), (1, small_frame), (1, small_frame), (1, small_frame)]
   \<and> len capped_frame = MAX_FEATURES \<and> len small_frame < MAX_FEATURES
   \<and> fst (process_tile (srv_capped_at (0, 0, 1, 1)) (0, 0, 1, 1) 0 [])
     = [kept_frame, kept_frame, kept_frame, kept_frame]
   \<and> len kept_frame = len small_frame
   \<and> all_features (initial_state 1) = []
   \<and> all_features (harvest_loop (srv_capped_at (0, 0, 1, 1)) 1 0 [(0, 0, 1, 1)] (initial_state 1))
     = [kept_frame, kept_frame, kept_frame, kept_frame]"
proof -
  have d: "fst (process_tile_depths (srv_capped_at (0, 0, 1, 1)) (0, 0, 1, 1) 0 [])
     = [(1, small_frame), (1, small_frame), (1, small_frame), (1, small_frame)]"
    by (simp add: srv_capped_at_def get_features_def sub_bboxes_unit MAX_DEPTH_def MAX_FEATURES_def)
  note inst = accepted_below_cap_or_at_max_depth[of "srv_capped_at (0, 0, 1, 1)" "(0, 0, 1, 1)" "[]"
      "initial_state 1" 1 0 "[(0, 0, 1, 1)]"]
  have a: "fst (process_tile (srv_capped_at (0, 0, 1, 1)) (0, 0, 1, 1) 0 [])
     = [kept_frame, kept_frame, kept_frame, kept_frame]"
    using inst unfolding d by (simp add: kept_small')
  have k: "len kept_frame = len small_frame \<and> len small_frame < MAX_FEATURES"
    using inst unfolding d by (simp add: kept_small' MAX_DEPTH_def)
  have e: "all_features (initial_state 1) = []" by (simp add: initial_state_def)
  have h: "all_features (harvest_loop (srv_capped_at (0, 0, 1, 1)) 1 0 [(0, 0, 1, 1)] (initial_state 1))
     = [kept_frame, kept_frame, kept_frame, kept_frame]"
    by (simp add: srv_capped_at_def get_features_def sub_bboxes_unit MAX_DEPTH_def
          MAX_FEATURES_def initial_state_def kept_small')
  from d a k e h show ?thesis by simp
qed

section \<open>Geometry of the subdivision\<close>





























section \<open>The invariant, the pacing delay and the export\<close>

lemma len_concat_frames: "len (concat_frames fs) = sum_list (map len fs)"
proof -
  have e: "len = (\<lambda>g. length (rows g))" by (rule ext) (simp add: len_def)
  show ?thesis unfolding e by (simp add: concat_frames_def length_concat comp_def)
qed

lemma collect_inv: "harvest_inv st \<Longrightarrow> harvest_inv (collect gs st)"
  by (auto simp: harvest_inv_def collect_all_features collect_total)

lemma harvest_inv_events [simp]: "harvest_inv (st\<lparr>events := evs\<rparr>) = harvest_inv st"
  by (simp add: harvest_inv_def)

lemma harvest_loop_inv: "harvest_inv st \<Longrightarrow> harvest_inv (harvest_loop srv total_tiles i tiles st)"
proof (induction tiles arbitrary: i st)
  case Nil
  then show ?case by simp
next
  case (Cons b tiles)
  show ?case
    by (cases "process_tile srv b 0 (events st @ [EvPrint (MsgTile (i + 1) total_tiles b)])")
       (auto simp: Let_def intro!: Cons.IH collect_inv Cons.prems)
qed

lemma concat_kept: "concat_frames [kept_frame] = kept_frame"
  by (simp add: concat_frames_def union_columns_def kept_frame_def cell_of_def)

lemma drop_geometry_kept: "drop_column ''geometry'' kept_frame = attrs_frame"
  by (simp add: drop_column_def getitem_cols_def kept_frame_def attrs_frame_def cell_of_def)

lemma columns_kept: "columns kept_frame = [''gpu_doc_id'', ''geometry'']"
  by (simp add: kept_frame_def)

lemma len_empty [simp]: "len empty_frame = 0"
  by (simp add: empty_frame_def len_def)

text \<open>
  Claim C10. The invariant holds at the start, is kept by every step of the inner loop and
  by the loop over the tiles, so it holds after every prefix of the tiles: the counter is
  the sum of the row counts of the accumulated frames, none of which is empty (the inner
  loop appends exactly the non-empty frames). At the end the merged frame has
  \<open>total_collected\<close> rows.
\<close>

theorem total_collected_invariant:
  "harvest_inv (initial_state total_tiles)
   \<and> (harvest_inv st \<longrightarrow> harvest_inv (collect gs st))
   \<and> (harvest_inv st \<longrightarrow> harvest_inv (harvest_loop srv total_tiles i tiles st))
   \<and> harvest_inv (harvest_loop srv total_tiles 0 (take k tiles) (initial_state total_tiles))
   \<and> all_features (collect gs st) = all_features st @ filter (\<lambda>g. 0 < len g) gs
   \<and> len (concat_frames (all_features (harvest_loop srv total_tiles 0 tiles (initial_state total_tiles))))
       = total_collected (harvest_loop srv total_tiles 0 tiles (initial_state total_tiles))"
proof -
  have i0: "harvest_inv (initial_state total_tiles)"
    by (simp add: harvest_inv_def initial_state_def)
  have fin: "harvest_inv (harvest_loop srv total_tiles 0 tiles (initial_state total_tiles))"
    by (rule harvest_loop_inv[OF i0])
  have "len (concat_frames (all_features (harvest_loop srv total_tiles 0 tiles (initial_state total_tiles))))
       = total_collected (harvest_loop srv total_tiles 0 tiles (initial_state total_tiles))"
    using fin by (simp add: len_concat_frames harvest_inv_def)
  then show ?thesis
    using i0 collect_inv harvest_loop_inv collect_all_features by blast
qed

theorem total_collected_invariant_witness:
  "all_features (harvest_loop (srv_empty_at (0, 45, 1, 46)) 2 0 [(0, 45, 1, 46), (1, 45, 2, 46)] (initial_state 2))
     = [kept_frame]
   \<and> total_collected (harvest_loop (srv_empty_at (0, 45, 1, 46)) 2 0 [(0, 45, 1, 46), (1, 45, 2, 46)] (initial_state 2))
     = 1
   \<and> len (concat_frames [kept_frame]) = 1"
proof -
  let ?fin = "harvest_loop (srv_empty_at (0, 45, 1, 46)) 2 0 [(0, 45, 1, 46), (1, 45, 2, 46)] (initial_state 2)"
  have a: "all_features ?fin = [kept_frame]"
    by (simp add: srv_empty_at_def get_features_def initial_state_def MAX_FEATURES_def kept_small')
  from total_collected_invariant[of 2 "initial_state 2" "[]" "srv_empty_at (0, 45, 1, 46)" 0
      "[(0, 45, 1, 46), (1, 45, 2, 46)]" 2]
  have "len (concat_frames (all_features ?fin)) = total_collected ?fin" by blast
  then have t: "total_collected ?fin = 1" unfolding a by (simp add: concat_kept)
  from a t show ?thesis by (simp add: concat_kept)
qed

lemma tile_event_kind: "tile_event d e \<Longrightarrow> \<not> is_write e \<and> \<not> is_sleep e \<and> e \<noteq> EvPrint MsgNoData"
  by (induction d e rule: tile_event.induct) simp_all

lemma collected_msg_kind: "is_collected_msg e \<Longrightarrow> \<not> is_write e \<and> \<not> is_sleep e \<and> e \<noteq> EvPrint MsgNoData"
  by (induction e rule: is_collected_msg.induct) simp_all

lemma collect_emits:
  "\<exists>pr. events (collect gs st) = events st @ pr \<and> list_all is_collected_msg pr"
proof (induction gs arbitrary: st)
  case Nil
  then show ?case by simp
next
  case (Cons g gs)
  show ?case
  proof (cases "0 < len g")
    case True
    let ?st1 = "st\<lparr>all_features := all_features st @ [g],
                total_collected := total_collected st + len g,
                events := events st @ [EvPrint (MsgCollected (len g) (total_collected st + len g))]\<rparr>"
    from Cons[of ?st1] obtain pr where
      "events (collect gs ?st1) = events ?st1 @ pr" "list_all is_collected_msg pr" by blast
    then show ?thesis using True
      by (intro exI[of _ "EvPrint (MsgCollected (len g) (total_collected st + len g)) # pr"]) simp
  next
    case False
    then show ?thesis using Cons[of st] by simp
  qed
qed

lemma harvest_step_events:
  "\<exists>new pr. snd (process_tile srv bbox 0 (events st @ [EvPrint (MsgTile (i + 1) total_tiles bbox)]))
        = events st @ [EvPrint (MsgTile (i + 1) total_tiles bbox)] @ new
     \<and> list_all (tile_event 0) new \<and> list_all is_collected_msg pr
     \<and> events (harvest_loop srv total_tiles i [bbox] st)
        = events st @ [EvPrint (MsgTile (i + 1) total_tiles bbox)] @ new
            @ (if fst (process_tile srv bbox 0 (events st @ [EvPrint (MsgTile (i + 1) total_tiles bbox)])) = []
               then [] else pr @ [EvSleep 1])"
proof -
  let ?evs0 = "events st @ [EvPrint (MsgTile (i + 1) total_tiles bbox)]"
  obtain tf evs1 where pt: "process_tile srv bbox 0 ?evs0 = (tf, evs1)"
    by (cases "process_tile srv bbox 0 ?evs0")
  from process_tile_emits(1)[of srv bbox 0 ?evs0] pt
  obtain new where new: "evs1 = ?evs0 @ new" "list_all (tile_event 0) new" by auto
  from collect_emits[of tf "st\<lparr>events := evs1\<rparr>"]
  obtain pr where pr: "events (collect tf (st\<lparr>events := evs1\<rparr>)) = evs1 @ pr"
    "list_all is_collected_msg pr" by auto
  show ?thesis
    apply (rule exI[of _ new], rule exI[of _ pr])
    using pt new pr by (simp add: Let_def)
qed

lemma sleep_count_append [simp]: "sleep_count (xs @ ys) = sleep_count xs + sleep_count ys"
  by (simp add: sleep_count_def)

lemma sleep_count_Cons [simp]: "sleep_count (e # evs) = (if is_sleep e then 1 else 0) + sleep_count evs"
  by (simp add: sleep_count_def)

lemma sleep_count_Nil [simp]: "sleep_count [] = 0"
  by (simp add: sleep_count_def)

lemma sleep_count_tile: "list_all (tile_event d) evs \<Longrightarrow> sleep_count evs = 0"
  by (induction evs) (auto dest: tile_event_kind)

lemma sleep_count_collected: "list_all is_collected_msg evs \<Longrightarrow> sleep_count evs = 0"
  by (induction evs) (auto dest: collected_msg_kind)

lemma harvest_event_tile: "list_all (tile_event d) evs \<Longrightarrow> list_all harvest_event evs"
  by (induction evs) (auto simp: harvest_event_def dest: tile_event_kind)

lemma harvest_event_collected: "list_all is_collected_msg evs \<Longrightarrow> list_all harvest_event evs"
  by (induction evs) (auto simp: harvest_event_def dest: collected_msg_kind)

lemma harvest_step_emits:
  "\<exists>n1. events (harvest_loop srv total_tiles i [bbox] st) = events st @ n1
     \<and> list_all harvest_event n1 \<and> sleep_count n1 \<le> 1"
proof -
  from harvest_step_events[of srv bbox st i total_tiles]
  obtain new pr where a: "list_all (tile_event 0) new" "list_all is_collected_msg pr"
    and e: "events (harvest_loop srv total_tiles i [bbox] st)
        = events st @ [EvPrint (MsgTile (i + 1) total_tiles bbox)] @ new
            @ (if fst (process_tile srv bbox 0 (events st @ [EvPrint (MsgTile (i + 1) total_tiles bbox)])) = []
               then [] else pr @ [EvSleep 1])"
    by blast
  have h: "list_all harvest_event new" "list_all harvest_event pr"
    using a harvest_event_tile harvest_event_collected by blast+
  have s: "sleep_count new = 0" "sleep_count pr = 0"
    using a sleep_count_tile sleep_count_collected by blast+
  have m: "harvest_event (EvPrint (MsgTile (i + 1) total_tiles bbox))" "harvest_event (EvSleep 1)"
    by (simp_all add: harvest_event_def)
  show ?thesis
  proof (cases "fst (process_tile srv bbox 0 (events st @ [EvPrint (MsgTile (i + 1) total_tiles bbox)])) = []")
    case True
    have "events (harvest_loop srv total_tiles i [bbox] st)
        = events st @ (EvPrint (MsgTile (i + 1) total_tiles bbox) # new)"
      using e[unfolded if_P[OF True]] by simp
    moreover have "list_all harvest_event (EvPrint (MsgTile (i + 1) total_tiles bbox) # new)"
      using h(1) m(1) by simp
    moreover have "sleep_count (EvPrint (MsgTile (i + 1) total_tiles bbox) # new) \<le> 1"
      using s(1) by simp
    ultimately show ?thesis by blast
  next
    case False
    have "events (harvest_loop srv total_tiles i [bbox] st)
        = events st @ (EvPrint (MsgTile (i + 1) total_tiles bbox) # new @ pr @ [EvSleep 1])"
      using e[unfolded if_not_P[OF False]] by simp
    moreover have "list_all harvest_event (EvPrint (MsgTile (i + 1) total_tiles bbox) # new @ pr @ [EvSleep 1])"
      using h m by simp
    moreover have "sleep_count (EvPrint (MsgTile (i + 1) total_tiles bbox) # new @ pr @ [EvSleep 1]) \<le> 1"
      using s by simp
    ultimately show ?thesis by blast
  qed
qed

lemma harvest_loop_emits:
  "\<exists>new. events (harvest_loop srv total_tiles i tiles st) = events st @ new
     \<and> list_all harvest_event new \<and> sleep_count new \<le> length tiles"
proof (induction tiles arbitrary: i st)
  case Nil
  then show ?case by simp
next
  case (Cons b tiles)
  let ?st1 = "harvest_loop srv total_tiles i [b] st"
  have split: "harvest_loop srv total_tiles i (b # tiles) st = harvest_loop srv total_tiles (i + 1) tiles ?st1"
    using harvest_loop_append[of srv total_tiles i "[b]" tiles st] by simp
  from harvest_step_emits[of srv total_tiles i b st]
  obtain n1 where n1: "events ?st1 = events st @ n1" "list_all harvest_event n1" "sleep_count n1 \<le> 1"
    by blast
  from Cons[of "i + 1" ?st1] obtain n2 where n2:
    "events (harvest_loop srv total_tiles (i + 1) tiles ?st1) = events ?st1 @ n2"
    "list_all harvest_event n2" "sleep_count n2 \<le> length tiles"
    by blast
  have "events (harvest_loop srv total_tiles i (b # tiles) st) = events st @ (n1 @ n2)"
    unfolding split n2(1) n1(1) by simp
  moreover have "list_all harvest_event (n1 @ n2)" using n1(2) n2(2) by simp
  moreover have "sleep_count (n1 @ n2) \<le> length (b # tiles)" using n1(3) n2(3) by simp
  ultimately show ?case by blast
qed

text \<open>
  Claim C4, as stated, fails: an initial tile whose request fails is followed by no delay,
  since the loop goes on to the next tile at once when \<open>process_tile\<close> returns nothing.
\<close>

theorem pacing_delay_skipped_counterexample:
  "sleep_count (events (harvest_loop (srv_failing_at (0, 45, 1, 46)) 1 0 [(0, 45, 1, 46)] (initial_state 1)))
     \<noteq> length [(0, 45, 1, 46) :: bbox]"
  by (simp add: srv_failing_at_def get_features_def initial_state_def)

lemma process_tile_no_sleep:
  "\<exists>new. snd (process_tile srv bbox depth evs) = evs @ new \<and> (\<forall>e \<in> set new. \<not> is_sleep e)"
proof -
  from process_tile_emits(1)[of srv bbox depth evs]
  obtain new where "snd (process_tile srv bbox depth evs) = evs @ new" "list_all (tile_event depth) new"
    by blast
  then show ?thesis using tile_event_kind by (auto simp: list_all_iff)
qed

text \<open>
  Claim C4, amended. One iteration of the harvest loop emits the events of
  \<open>process_tile\<close>, none of which is a delay; when \<open>process_tile\<close> returned at least one
  frame (empty or not) it then emits the messages of the inner loop and one delay of 1;
  when \<open>process_tile\<close> returned nothing it emits nothing more. The loop over the tiles is
  the sequence of these iterations, and \<open>process_tile\<close> emits no delay at any depth.
\<close>

theorem pacing_delay_per_initial_tile:
  "(\<exists>new pr.
      snd (process_tile srv bbox 0 (events st @ [EvPrint (MsgTile (i + 1) total_tiles bbox)]))
        = events st @ [EvPrint (MsgTile (i + 1) total_tiles bbox)] @ new
      \<and> (\<forall>e \<in> set new. \<not> is_sleep e) \<and> (\<forall>e \<in> set pr. \<not> is_sleep e)
      \<and> (fst (process_tile srv bbox 0 (events st @ [EvPrint (MsgTile (i + 1) total_tiles bbox)])) \<noteq> []
           \<longrightarrow> events (harvest_loop srv total_tiles i [bbox] st)
                 = events st @ [EvPrint (MsgTile (i + 1) total_tiles bbox)] @ new @ pr @ [EvSleep 1])
      \<and> (fst (process_tile srv bbox 0 (events st @ [EvPrint (MsgTile (i + 1) total_tiles bbox)])) = []
           \<longrightarrow> events (harvest_loop srv total_tiles i [bbox] st)
                 = events st @ [EvPrint (MsgTile (i + 1) total_tiles bbox)] @ new))
   \<and> harvest_loop srv total_tiles i (bbox # rest) st
       = harvest_loop srv total_tiles (i + 1) rest (harvest_loop srv total_tiles i [bbox] st)
   \<and> (\<exists>new. snd (process_tile srv bbox depth evs) = evs @ new \<and> (\<forall>e \<in> set new. \<not> is_sleep e))"
proof (intro conjI)
  from harvest_step_events[of srv bbox st i total_tiles]
  obtain new pr where a: "list_all (tile_event 0) new" "list_all is_collected_msg pr"
    and p: "snd (process_tile srv bbox 0 (events st @ [EvPrint (MsgTile (i + 1) total_tiles bbox)]))
        = events st @ [EvPrint (MsgTile (i + 1) total_tiles bbox)] @ new"
    and e: "events (harvest_loop srv total_tiles i [bbox] st)
        = events st @ [EvPrint (MsgTile (i + 1) total_tiles bbox)] @ new
            @ (if fst (process_tile srv bbox 0 (events st @ [EvPrint (MsgTile (i + 1) total_tiles bbox)])) = []
               then [] else pr @ [EvSleep 1])"
    by blast
  have ns: "\<forall>e \<in> set new. \<not> is_sleep e" "\<forall>e \<in> set pr. \<not> is_sleep e"
    using a tile_event_kind collected_msg_kind by (auto simp: list_all_iff)
  have c1: "fst (process_tile srv bbox 0 (events st @ [EvPrint (MsgTile (i + 1) total_tiles bbox)])) \<noteq> []
           \<longrightarrow> events (harvest_loop srv total_tiles i [bbox] st)
                 = events st @ [EvPrint (MsgTile (i + 1) total_tiles bbox)] @ new @ pr @ [EvSleep 1]"
  proof
    assume f: "fst (process_tile srv bbox 0 (events st @ [EvPrint (MsgTile (i + 1) total_tiles bbox)])) \<noteq> []"
    show "events (harvest_loop srv total_tiles i [bbox] st)
                 = events st @ [EvPrint (MsgTile (i + 1) total_tiles bbox)] @ new @ pr @ [EvSleep 1]"
      using e[unfolded if_not_P[OF f]] .
  qed
  have c2: "fst (process_tile srv bbox 0 (events st @ [EvPrint (MsgTile (i + 1) total_tiles bbox)])) = []
           \<longrightarrow> events (harvest_loop srv total_tiles i [bbox] st)
                 = events st @ [EvPrint (MsgTile (i + 1) total_tiles bbox)] @ new"
  proof
    assume f: "fst (process_tile srv bbox 0 (events st @ [EvPrint (MsgTile (i + 1) total_tiles bbox)])) = []"
    show "events (harvest_loop srv total_tiles i [bbox] st)
                 = events st @ [EvPrint (MsgTile (i + 1) total_tiles bbox)] @ new"
      using e[unfolded if_P[OF f]] by simp
  qed
  show "\<exists>new pr.
      snd (process_tile srv bbox 0 (events st @ [EvPrint (MsgTile (i + 1) total_tiles bbox)]))
        = events st @ [EvPrint (MsgTile (i + 1) total_tiles bbox)] @ new
      \<and> (\<forall>e \<in> set new. \<not> is_sleep e) \<and> (\<forall>e \<in> set pr. \<not> is_sleep e)
      \<and> (fst (process_tile srv bbox 0 (events st @ [EvPrint (MsgTile (i + 1) total_tiles bbox)])) \<noteq> []
           \<longrightarrow> events (harvest_loop srv total_tiles i [bbox] st)
                 = events st @ [EvPrint (MsgTile (i + 1) total_tiles bbox)] @ new @ pr @ [EvSleep 1])
      \<and> (fst (process_tile srv bbox 0 (events st @ [EvPrint (MsgTile (i + 1) total_tiles bbox)])) = []
           \<longrightarrow> events (harvest_loop srv total_tiles i [bbox] st)
                 = events st @ [EvPrint (MsgTile (i + 1) total_tiles bbox)] @ new)"
    using p ns c1 c2 by blast
  show "harvest_loop srv total_tiles i (bbox # rest) st
       = harvest_loop srv total_tiles (i + 1) rest (harvest_loop srv total_tiles i [bbox] st)"
    using harvest_loop_append[of srv total_tiles i "[bbox]" rest st] by simp
  show "\<exists>new. snd (process_tile srv bbox depth evs) = evs @ new \<and> (\<forall>e \<in> set new. \<not> is_sleep e)"
    by (rule process_tile_no_sleep)
qed

theorem pacing_delay_per_initial_tile_witness:
  "fst (process_tile (srv_empty_at (0, 45, 1, 46)) (0, 45, 1, 46) 0
         (events (initial_state 1) @ [EvPrint (MsgTile (0 + 1) 1 (0, 45, 1, 46))]))
     = [getitem_cols empty_frame (available_cols empty_frame)]
   \<and> events (harvest_loop (srv_empty_at (0, 45, 1, 46)) 1 0 [(0, 45, 1, 46)] (initial_state 1))
     = [EvPrint (MsgTotalTiles 1), EvPrint (MsgTile 1 1 (0, 45, 1, 46)), EvFetch (0, 45, 1, 46), EvSleep 1]
   \<and> fst (process_tile (srv_failing_at (0, 45, 1, 46)) (0, 45, 1, 46) 0
         (events (initial_state 1) @ [EvPrint (MsgTile (0 + 1) 1 (0, 45, 1, 46))])) = []
   \<and> events (harvest_loop (srv_failing_at (0, 45, 1, 46)) 1 0 [(0, 45, 1, 46)] (initial_state 1))
     = [EvPrint (MsgTotalTiles 1), EvPrint (MsgTile 1 1 (0, 45, 1, 46)), EvFetch (0, 45, 1, 46),
        EvPrint (MsgError (0, 45, 1, 46))]"
proof -
  let ?b = "(0, 45, 1, 46) :: bbox"
  let ?evs0 = "events (initial_state 1) @ [EvPrint (MsgTile (0 + 1) 1 ?b)]"
  have f1: "fst (process_tile (srv_empty_at ?b) ?b 0 ?evs0)
     = [getitem_cols empty_frame (available_cols empty_frame)]"
    by (simp add: srv_empty_at_def get_features_def MAX_FEATURES_def)
  have s1: "snd (process_tile (srv_empty_at ?b) ?b 0 ?evs0) = ?evs0 @ [EvFetch ?b]"
    by (simp add: srv_empty_at_def get_features_def MAX_FEATURES_def)
  from pacing_delay_per_initial_tile[of "srv_empty_at ?b" ?b "initial_state 1" 0 1 "[]" 0 "[]"]
  obtain new pr where w: "snd (process_tile (srv_empty_at ?b) ?b 0 ?evs0) = ?evs0 @ new"
    "\<forall>e \<in> set pr. \<not> is_sleep e"
    "fst (process_tile (srv_empty_at ?b) ?b 0 ?evs0) \<noteq> []
       \<longrightarrow> events (harvest_loop (srv_empty_at ?b) 1 0 [?b] (initial_state 1))
            = ?evs0 @ new @ pr @ [EvSleep 1]"
    by (auto simp del: process_tile.simps harvest_loop.simps)
  have n: "new = [EvFetch ?b]" using w(1) s1 by simp
  have e1: "events (harvest_loop (srv_empty_at ?b) 1 0 [?b] (initial_state 1))
     = [EvPrint (MsgTotalTiles 1), EvPrint (MsgTile 1 1 ?b), EvFetch ?b, EvSleep 1]"
    by (simp add: srv_empty_at_def get_features_def MAX_FEATURES_def initial_state_def)
  have f2: "fst (process_tile (srv_failing_at ?b) ?b 0 ?evs0) = []"
    by (simp add: srv_failing_at_def get_features_def)
  have s2: "snd (process_tile (srv_failing_at ?b) ?b 0 ?evs0) = ?evs0 @ [EvFetch ?b, EvPrint (MsgError ?b)]"
    by (simp add: srv_failing_at_def get_features_def)
  from pacing_delay_per_initial_tile[of "srv_failing_at ?b" ?b "initial_state 1" 0 1 "[]" 0 "[]"]
  obtain new' where w': "snd (process_tile (srv_failing_at ?b) ?b 0 ?evs0) = ?evs0 @ new'"
    "fst (process_tile (srv_failing_at ?b) ?b 0 ?evs0) = []
       \<longrightarrow> events (harvest_loop (srv_failing_at ?b) 1 0 [?b] (initial_state 1)) = ?evs0 @ new'"
    by (auto simp del: process_tile.simps harvest_loop.simps)
  have n': "new' = [EvFetch ?b, EvPrint (MsgError ?b)]" using w'(1) s2 by simp
  have e2: "events (harvest_loop (srv_failing_at ?b) 1 0 [?b] (initial_state 1))
     = [EvPrint (MsgTotalTiles 1), EvPrint (MsgTile 1 1 ?b), EvFetch ?b, EvPrint (MsgError ?b)]"
    using w'(2) f2 unfolding n' by (simp add: initial_state_def)
  from f1 e1 f2 e2 show ?thesis by simp
qed

lemma inv_empty_iff: "harvest_inv st \<Longrightarrow> (all_features st = []) = (total_collected st = 0)"
  by (cases "all_features st") (auto simp: harvest_inv_def)

lemma harvest_event_no_write: "list_all harvest_event evs \<Longrightarrow> filter is_write evs = []"
  by (induction evs) (auto simp: harvest_event_def)

lemma harvest_event_no_nodata: "list_all harvest_event evs \<Longrightarrow> EvPrint MsgNoData \<notin> set evs"
  by (induction evs) (auto simp: harvest_event_def)

lemma harvest_events_from_initial:
  "list_all harvest_event (events (harvest_loop srv total_tiles 0 tiles (initial_state total_tiles)))"
proof -
  from harvest_loop_emits[of srv total_tiles 0 tiles "initial_state total_tiles"]
  obtain new where "events (harvest_loop srv total_tiles 0 tiles (initial_state total_tiles))
      = events (initial_state total_tiles) @ new" "list_all harvest_event new" by blast
  then show ?thesis by (simp add: initial_state_def harvest_event_def)
qed

lemma export_block_empty:
  "all_features st = [] \<Longrightarrow> export_block st = events st @ [EvPrint MsgNoData]"
  by (simp add: export_block_def)

lemma export_block_nonempty:
  "all_features st \<noteq> [] \<Longrightarrow>
   export_block st = events st @
     [EvPrint (MsgFinal (len (concat_frames (all_features st)))),
      EvToFile ''urbanisme_complet.geojson'' (concat_frames (all_features st)),
      EvToCsv ''urbanisme_attributs.csv''
        (if ''geometry'' \<in> set (columns (concat_frames (all_features st)))
         then drop_column ''geometry'' (concat_frames (all_features st))
         else concat_frames (all_features st)),
      EvPrint MsgExportDone,
      EvPrint (MsgFileName ''urbanisme_complet.geojson''),
      EvPrint (MsgFileName ''urbanisme_attributs.csv'')]"
  by (simp add: export_block_def Let_def)

text \<open>
  Claim C7. A run whose tile enumeration ends exports the final state of the harvest loop.
  Nothing was accumulated exactly when the counter is 0; then the log of the run holds no
  file write and ends with the diagnostic message. Otherwise the log holds exactly two
  writes, the geometry file and then the attribute file, and no diagnostic message.
\<close>

theorem export_only_when_harvest_nonempty:
  "generate_tiles minx miny maxx maxy tsize = Some tiles \<longrightarrow>
     run srv (minx, miny, maxx, maxy) tsize
       = Some (export_block (harvest_loop srv (length tiles) 0 tiles (initial_state (length tiles))))
     \<and> ((all_features (harvest_loop srv (length tiles) 0 tiles (initial_state (length tiles))) = [])
          = (total_collected (harvest_loop srv (length tiles) 0 tiles (initial_state (length tiles))) = 0))
     \<and> (all_features (harvest_loop srv (length tiles) 0 tiles (initial_state (length tiles))) = [] \<longrightarrow>
          filter is_write (export_block (harvest_loop srv (length tiles) 0 tiles (initial_state (length tiles)))) = []
          \<and> last (export_block (harvest_loop srv (length tiles) 0 tiles (initial_state (length tiles))))
              = EvPrint MsgNoData)
     \<and> (all_features (harvest_loop srv (length tiles) 0 tiles (initial_state (length tiles))) \<noteq> [] \<longrightarrow>
          (\<exists>csv. filter is_write (export_block (harvest_loop srv (length tiles) 0 tiles (initial_state (length tiles))))
             = [EvToFile ''urbanisme_complet.geojson''
                  (concat_frames (all_features (harvest_loop srv (length tiles) 0 tiles (initial_state (length tiles))))),
                EvToCsv ''urbanisme_attributs.csv'' csv])
          \<and> EvPrint MsgNoData \<notin> set (export_block (harvest_loop srv (length tiles) 0 tiles (initial_state (length tiles)))))"
proof
  assume g: "generate_tiles minx miny maxx maxy tsize = Some tiles"
  let ?fin = "harvest_loop srv (length tiles) 0 tiles (initial_state (length tiles))"
  have r: "run srv (minx, miny, maxx, maxy) tsize = Some (export_block ?fin)"
    using g by (simp add: run_def Let_def)
  have inv: "harvest_inv ?fin"
    using harvest_loop_inv[of "initial_state (length tiles)" srv "length tiles" 0 tiles]
    by (simp add: harvest_inv_def initial_state_def)
  have ev: "list_all harvest_event (events ?fin)" by (rule harvest_events_from_initial)
  note nw = harvest_event_no_write[OF ev] and nn = harvest_event_no_nodata[OF ev]
  have e: "all_features ?fin = [] \<longrightarrow>
          filter is_write (export_block ?fin) = [] \<and> last (export_block ?fin) = EvPrint MsgNoData"
    using nw by (simp add: export_block_empty)
  have n: "all_features ?fin \<noteq> [] \<longrightarrow>
          (\<exists>csv. filter is_write (export_block ?fin)
             = [EvToFile ''urbanisme_complet.geojson'' (concat_frames (all_features ?fin)),
                EvToCsv ''urbanisme_attributs.csv'' csv])
          \<and> EvPrint MsgNoData \<notin> set (export_block ?fin)"
    using nw nn by (simp add: export_block_nonempty)
  show "run srv (minx, miny, maxx, maxy) tsize = Some (export_block ?fin)
     \<and> ((all_features ?fin = []) = (total_collected ?fin = 0))
     \<and> (all_features ?fin = [] \<longrightarrow>
          filter is_write (export_block ?fin) = [] \<and> last (export_block ?fin) = EvPrint MsgNoData)
     \<and> (all_features ?fin \<noteq> [] \<longrightarrow>
          (\<exists>csv. filter is_write (export_block ?fin)
             = [EvToFile ''urbanisme_complet.geojson'' (concat_frames (all_features ?fin)),
                EvToCsv ''urbanisme_attributs.csv'' csv])
          \<and> EvPrint MsgNoData \<notin> set (export_block ?fin))"
    using r inv_empty_iff[OF inv] e n by blast
qed

theorem export_only_when_harvest_nonempty_witness:
  "generate_tiles 0 45 1 46 1 = Some [(0, 45, 1, 46)]
   \<and> run (srv_failing_at (0, 45, 1, 46)) (0, 45, 1, 46) 1
      = Some [EvPrint (MsgTotalTiles 1), EvPrint (MsgTile 1 1 (0, 45, 1, 46)), EvFetch (0, 45, 1, 46),
              EvPrint (MsgError (0, 45, 1, 46)), EvPrint MsgNoData]
   \<and> run (srv_failing_at (9, 9, 9, 9)) (0, 45, 1, 46) 1
      = Some [EvPrint (MsgTotalTiles 1), EvPrint (MsgTile 1 1 (0, 45, 1, 46)), EvFetch (0, 45, 1, 46),
              EvPrint (MsgCollected 1 1), EvSleep 1, EvPrint (MsgFinal 1),
              EvToFile ''urbanisme_complet.geojson'' kept_frame,
              EvToCsv ''urbanisme_attributs.csv'' attrs_frame,
              EvPrint MsgExportDone, EvPrint (MsgFileName ''urbanisme_complet.geojson''),
              EvPrint (MsgFileName ''urbanisme_attributs.csv'')]"
proof -
  have g: "generate_tiles 0 45 1 46 1 = Some [(0, 45, 1, 46)]"
    by (simp add: generate_tiles_def generate_tiles_x.simps generate_tiles_y.simps)
  let ?f1 = "harvest_loop (srv_failing_at (0, 45, 1, 46)) (length [(0, 45, 1, 46) :: bbox]) 0
               [(0, 45, 1, 46)] (initial_state (length [(0, 45, 1, 46) :: bbox]))"
  let ?f2 = "harvest_loop (srv_failing_at (9, 9, 9, 9)) (length [(0, 45, 1, 46) :: bbox]) 0
               [(0, 45, 1, 46)] (initial_state (length [(0, 45, 1, 46) :: bbox]))"
  have r1: "run (srv_failing_at (0, 45, 1, 46)) (0, 45, 1, 46) 1 = Some (export_block ?f1)"
    using export_only_when_harvest_nonempty[of 0 45 1 46 1 "[(0, 45, 1, 46)]" "srv_failing_at (0, 45, 1, 46)"] g
    by blast
  have r2: "run (srv_failing_at (9, 9, 9, 9)) (0, 45, 1, 46) 1 = Some (export_block ?f2)"
    using export_only_when_harvest_nonempty[of 0 45 1 46 1 "[(0, 45, 1, 46)]" "srv_failing_at (9, 9, 9, 9)"] g
    by blast
  have e1: "export_block ?f1
      = [EvPrint (MsgTotalTiles 1), EvPrint (MsgTile 1 1 (0, 45, 1, 46)), EvFetch (0, 45, 1, 46),
              EvPrint (MsgError (0, 45, 1, 46)), EvPrint MsgNoData]"
    by (simp add: srv_failing_at_def get_features_def initial_state_def export_block_def)
  have s2: "?f2 = \<lparr>all_features = [kept_frame], total_collected = 1,
      events = [EvPrint (MsgTotalTiles 1), EvPrint (MsgTile 1 1 (0, 45, 1, 46)), EvFetch (0, 45, 1, 46),
              EvPrint (MsgCollected 1 1), EvSleep 1]\<rparr>"
    by (simp add: srv_failing_at_def get_features_def initial_state_def MAX_FEATURES_def kept_small')
  have e2: "export_block ?f2
      = [EvPrint (MsgTotalTiles 1), EvPrint (MsgTile 1 1 (0, 45, 1, 46)), EvFetch (0, 45, 1, 46),
              EvPrint (MsgCollected 1 1), EvSleep 1, EvPrint (MsgFinal 1),
              EvToFile ''urbanisme_complet.geojson'' kept_frame,
              EvToCsv ''urbanisme_attributs.csv'' attrs_frame,
              EvPrint MsgExportDone, EvPrint (MsgFileName ''urbanisme_complet.geojson''),
              EvPrint (MsgFileName ''urbanisme_attributs.csv'')]"
    unfolding s2 by (simp add: export_block_def concat_kept drop_geometry_kept Let_def columns_kept)
  from g r1 r2 e1 e2 show ?thesis by simp
qed

lemma cell_of_projected:
  "c \<in> set cols \<Longrightarrow> cell_of cols (map (cell_of cols0 r) cols) c = cell_of cols0 r c"
  by (simp add: cell_of_def map_of_zip_map)

lemma getitem_cols_props:
  "columns (getitem_cols g cols) = cols"
  "len (getitem_cols g cols) = len g"
  "i < len g \<Longrightarrow> c \<in> set cols \<Longrightarrow>
     cell_of (columns (getitem_cols g cols)) (rows (getitem_cols g cols) ! i) c
       = cell_of (columns g) (rows g ! i) c"
  by (simp_all add: getitem_cols_def len_def cell_of_projected)


section \<open>The records in the merged frame and in the files\<close>

lemma set_union_columns: "set (union_columns fs) = (\<Union>g \<in> set fs. set (columns g))"
  by (simp add: union_columns_def)

lemma rows_concat_frames_append:
  assumes "i < len g"
  shows "rows (concat_frames (xs @ g # ys)) ! (sum_list (map len xs) + i)
     = map (cell_of (columns g) (rows g ! i)) (union_columns (xs @ g # ys))"
proof -
  let ?u = "union_columns (xs @ g # ys)"
  let ?h = "\<lambda>g. map (\<lambda>r. map (cell_of (columns g) r) ?u) (rows g)"
  have l: "length (concat (map ?h xs)) = sum_list (map len xs)"
  proof -
    have e: "len = (\<lambda>g. length (rows g))" by (rule ext) (simp add: len_def)
    show ?thesis unfolding e by (simp add: length_concat comp_def)
  qed
  have "rows (concat_frames (xs @ g # ys)) = concat (map ?h xs) @ ?h g @ concat (map ?h ys)"
    by (simp add: concat_frames_def)
  then have "rows (concat_frames (xs @ g # ys)) ! (sum_list (map len xs) + i)
      = (?h g @ concat (map ?h ys)) ! i"
    using l by (simp add: nth_append)
  also have "\<dots> = ?h g ! i" using assms by (simp add: nth_append len_def)
  also have "\<dots> = map (cell_of (columns g) (rows g ! i)) ?u" using assms by (simp add: len_def)
  finally show ?thesis .
qed

text \<open>
  The merged frame holds the records of each of its frames, in order: those of frame
  \<open>k\<close> start at the row whose index is the number of records before it.
\<close>

lemma merged_records_at:
  assumes "k < length fs"
  shows "records_at (sum_list (map len (take k fs))) (\<lambda>c. True) (concat_frames fs) (fs ! k)"
proof -
  let ?xs = "take k fs" and ?g = "fs ! k" and ?ys = "drop (Suc k) fs"
  have fs: "fs = ?xs @ ?g # ?ys" using assms by (rule id_take_nth_drop)
  have le: "sum_list (map len ?xs) + len ?g \<le> len (concat_frames fs)"
  proof -
    have "len (concat_frames fs) = sum_list (map len (?xs @ ?g # ?ys))"
      unfolding len_concat_frames using fs by simp
    then show ?thesis by simp
  qed
  have "cell_of (columns (concat_frames fs)) (rows (concat_frames fs) ! (sum_list (map len ?xs) + i)) c
            = cell_of (columns ?g) (rows ?g ! i) c" if "i < len ?g" "c \<in> set (columns ?g)" for i c
  proof -
    have "?g \<in> set fs" using assms by simp
    then have cu: "c \<in> set (union_columns fs)" using that(2) by (auto simp: set_union_columns)
    have co: "columns (concat_frames fs) = union_columns fs" by (simp add: concat_frames_def)
    have "rows (concat_frames fs) ! (sum_list (map len ?xs) + i)
        = map (cell_of (columns ?g) (rows ?g ! i)) (union_columns fs)"
      using rows_concat_frames_append[OF that(1), of ?xs ?ys] fs by simp
    then show ?thesis using cu co by (simp add: cell_of_projected)
  qed
  with le show ?thesis unfolding records_at_def by blast
qed

lemma dropped_keeps_cells:
  assumes "i < len F" "c \<in> set (columns F)" "c \<noteq> x"
  shows "cell_of (columns (drop_column x F)) (rows (drop_column x F) ! i) c
           = cell_of (columns F) (rows F ! i) c"
  unfolding drop_column_def
  using getitem_cols_props(3)[OF assms(1), of c "filter (\<lambda>c'. c' \<noteq> x) (columns F)"] assms(2,3)
  by simp

lemma csv_records_at:
  assumes "k < length fs"
  shows "records_at (sum_list (map len (take k fs))) (\<lambda>c. c \<noteq> ''geometry'')
           (if ''geometry'' \<in> set (columns (concat_frames fs))
            then drop_column ''geometry'' (concat_frames fs) else concat_frames fs)
           (fs ! k)"
proof -
  let ?F = "concat_frames fs" and ?g = "fs ! k" and ?off = "sum_list (map len (take k fs))"
  from merged_records_at[OF assms] have off: "?off + len ?g \<le> len ?F"
    "\<forall>i < len ?g. \<forall>c \<in> set (columns ?g).
          cell_of (columns ?F) (rows ?F ! (?off + i)) c = cell_of (columns ?g) (rows ?g ! i) c"
    unfolding records_at_def by simp_all
  have "?g \<in> set fs" using assms by simp
  then have cu: "c \<in> set (columns ?F)" if "c \<in> set (columns ?g)" for c
    using that by (auto simp: concat_frames_def set_union_columns)
  show ?thesis
  proof (cases "''geometry'' \<in> set (columns ?F)")
    case True
    have "cell_of (columns (drop_column ''geometry'' ?F))
            (rows (drop_column ''geometry'' ?F) ! (?off + i)) c
            = cell_of (columns ?g) (rows ?g ! i) c"
      if "i < len ?g" "c \<in> set (columns ?g)" "c \<noteq> ''geometry''" for i c
    proof -
      have "?off + i < len ?F" using that(1) off(1) by simp
      from dropped_keeps_cells[OF this cu[OF that(2)] that(3)] off(2) that(1,2)
      show ?thesis by simp
    qed
    moreover have "len (drop_column ''geometry'' ?F) = len ?F"
      by (simp add: drop_column_def)
    ultimately show ?thesis unfolding if_P[OF True] records_at_def using off(1) by simp
  next
    case False
    show ?thesis unfolding if_not_P[OF False] records_at_def using off by simp
  qed
qed

lemma records_in_export:
  assumes "g \<in> set (all_features st)"
  shows "(\<exists>off. records_at off (\<lambda>c. True) (concat_frames (all_features st)) g)
    \<and> EvToFile ''urbanisme_complet.geojson'' (concat_frames (all_features st)) \<in> set (export_block st)
    \<and> (\<exists>csv off. EvToCsv ''urbanisme_attributs.csv'' csv \<in> set (export_block st)
          \<and> ''geometry'' \<notin> set (columns csv)
          \<and> records_at off (\<lambda>c. c \<noteq> ''geometry'') csv g)"
proof -
  let ?fs = "all_features st"
  let ?F = "concat_frames ?fs"
  let ?csv = "if ''geometry'' \<in> set (columns ?F) then drop_column ''geometry'' ?F else ?F"
  from assms obtain k where k: "k < length ?fs" "?fs ! k = g" by (auto simp: in_set_conv_nth)
  have ne: "?fs \<noteq> []" using assms by auto
  have a: "\<exists>off. records_at off (\<lambda>c. True) ?F g"
    using merged_records_at[OF k(1)] k(2) by auto
  have b: "EvToFile ''urbanisme_complet.geojson'' ?F \<in> set (export_block st)"
    and c: "EvToCsv ''urbanisme_attributs.csv'' ?csv \<in> set (export_block st)"
    unfolding export_block_nonempty[OF ne] by simp_all
  have d: "''geometry'' \<notin> set (columns ?csv)"
    by (simp add: drop_column_def getitem_cols_props(1))
  have e: "records_at (sum_list (map len (take k ?fs))) (\<lambda>c. c \<noteq> ''geometry'') ?csv g"
    using csv_records_at[OF k(1)] k(2) by simp
  from a b c d e show ?thesis by blast
qed

lemma tile_frames_accumulated:
  assumes "g \<in> set (fst (process_tile srv t 0
                 (events (harvest_loop srv total_tiles i pre st)
                    @ [EvPrint (MsgTile (i + length pre + 1) total_tiles t)])))"
    and "0 < len g"
  shows "g \<in> set (all_features (harvest_loop srv total_tiles i (pre @ t # post) st))"
proof -
  let ?st1 = "harvest_loop srv total_tiles i pre st"
  have "harvest_loop srv total_tiles i (pre @ t # post) st
      = harvest_loop srv total_tiles (i + length pre + 1) post
          (harvest_loop srv total_tiles (i + length pre) [t] ?st1)"
    using harvest_loop_append[of srv total_tiles i pre "t # post" st]
      harvest_loop_append[of srv total_tiles "i + length pre" "[t]" post ?st1]
    by simp
  moreover have "g \<in> set (all_features (harvest_loop srv total_tiles (i + length pre) [t] ?st1))"
    unfolding harvest_step_features using assms by simp
  ultimately show ?thesis
    using harvest_loop_mono[of srv total_tiles "i + length pre + 1" post
            "harvest_loop srv total_tiles (i + length pre) [t] ?st1"]
    by auto
qed

text \<open>
  Claim C6. When the request for a tile fails, \<open>process_tile\<close> returns no frame after that
  single request and its error message: nothing is subdivided or retried. In the harvest
  loop the failed tile leaves the accumulated frames untouched and the loop goes on with
  the remaining tiles. Whatever happened to the tiles before it, every non-empty frame that
  \<open>process_tile\<close> returns for a tile is among the frames accumulated at the end, its
  records are rows of the merged frame with all their cells, the merged frame is the one
  written to the geometry file, and the attribute file holds the same records with every
  cell but the geometry.
\<close>

theorem fetch_failure_isolated:
  "(srv evs bbox = None \<longrightarrow>
      process_tile srv bbox depth evs = ([], evs @ [EvFetch bbox, EvPrint (MsgError bbox)]))
   \<and> (srv (events st @ [EvPrint (MsgTile (i + 1) total_tiles bbox)]) bbox = None \<longrightarrow>
      harvest_loop srv total_tiles i (bbox # rest) st
        = harvest_loop srv total_tiles (i + 1) rest
            (st\<lparr>events := events st @ [EvPrint (MsgTile (i + 1) total_tiles bbox),
                                       EvFetch bbox, EvPrint (MsgError bbox)]\<rparr>))
   \<and> (\<forall>g \<in> set (fst (process_tile srv t 0
                       (events (harvest_loop srv total_tiles i pre st)
                          @ [EvPrint (MsgTile (i + length pre + 1) total_tiles t)]))).
        0 < len g \<longrightarrow>
          g \<in> set (all_features (harvest_loop srv total_tiles i (pre @ t # post) st))
          \<and> (\<exists>off. records_at off (\<lambda>c. True)
                 (concat_frames (all_features (harvest_loop srv total_tiles i (pre @ t # post) st))) g)
          \<and> EvToFile ''urbanisme_complet.geojson''
                 (concat_frames (all_features (harvest_loop srv total_tiles i (pre @ t # post) st)))
               \<in> set (export_block (harvest_loop srv total_tiles i (pre @ t # post) st))
          \<and> (\<exists>csv off.
                 EvToCsv ''urbanisme_attributs.csv'' csv
                   \<in> set (export_block (harvest_loop srv total_tiles i (pre @ t # post) st))
                 \<and> ''geometry'' \<notin> set (columns csv)
                 \<and> records_at off (\<lambda>c. c \<noteq> ''geometry'') csv g))"
proof (intro conjI impI ballI)
  assume "srv evs bbox = None"
  then show "process_tile srv bbox depth evs = ([], evs @ [EvFetch bbox, EvPrint (MsgError bbox)])"
    by (simp add: get_features_def)
next
  assume "srv (events st @ [EvPrint (MsgTile (i + 1) total_tiles bbox)]) bbox = None"
  then show "harvest_loop srv total_tiles i (bbox # rest) st
        = harvest_loop srv total_tiles (i + 1) rest
            (st\<lparr>events := events st @ [EvPrint (MsgTile (i + 1) total_tiles bbox),
                                       EvFetch bbox, EvPrint (MsgError bbox)]\<rparr>)"
    by (simp add: get_features_def)
next
  fix g
  let ?fin = "harvest_loop srv total_tiles i (pre @ t # post) st"
  assume g: "g \<in> set (fst (process_tile srv t 0
                 (events (harvest_loop srv total_tiles i pre st)
                    @ [EvPrint (MsgTile (i + length pre + 1) total_tiles t)])))"
    and pos: "0 < len g"
  have m: "g \<in> set (all_features ?fin)" by (rule tile_frames_accumulated[OF g pos])
  note r = records_in_export[OF m]
  show "g \<in> set (all_features ?fin)" by (rule m)
  show "\<exists>off. records_at off (\<lambda>c. True) (concat_frames (all_features ?fin)) g"
    using r by blast
  show "EvToFile ''urbanisme_complet.geojson'' (concat_frames (all_features ?fin))
          \<in> set (export_block ?fin)"
    using r by blast
  show "\<exists>csv off. EvToCsv ''urbanisme_attributs.csv'' csv \<in> set (export_block ?fin)
          \<and> ''geometry'' \<notin> set (columns csv)
          \<and> records_at off (\<lambda>c. c \<noteq> ''geometry'') csv g"
    using r by blast
qed

theorem fetch_failure_isolated_witness:
  "srv_failing_at (0, 45, 1, 46) [EvPrint (MsgTotalTiles 2), EvPrint (MsgTile 1 2 (0, 45, 1, 46))] (0, 45, 1, 46) = None
   \<and> process_tile (srv_failing_at (0, 45, 1, 46)) (0, 45, 1, 46) 0
        [EvPrint (MsgTotalTiles 2), EvPrint (MsgTile 1 2 (0, 45, 1, 46))]
      = ([], [EvPrint (MsgTotalTiles 2), EvPrint (MsgTile 1 2 (0, 45, 1, 46)),
              EvFetch (0, 45, 1, 46), EvPrint (MsgError (0, 45, 1, 46))])
   \<and> all_features (harvest_loop (srv_failing_at (0, 45, 1, 46)) 2 0
        [(0, 45, 1, 46), (1, 45, 2, 46)] (initial_state 2))
      = [kept_frame]
   \<and> export_block (harvest_loop (srv_failing_at (0, 45, 1, 46)) 2 0
        [(0, 45, 1, 46), (1, 45, 2, 46)] (initial_state 2))
      = [EvPrint (MsgTotalTiles 2), EvPrint (MsgTile 1 2 (0, 45, 1, 46)), EvFetch (0, 45, 1, 46),
         EvPrint (MsgError (0, 45, 1, 46)), EvPrint (MsgTile 2 2 (1, 45, 2, 46)),
         EvFetch (1, 45, 2, 46), EvPrint (MsgCollected 1 1), EvSleep 1, EvPrint (MsgFinal 1),
         EvToFile ''urbanisme_complet.geojson'' kept_frame,
         EvToCsv ''urbanisme_attributs.csv'' attrs_frame,
         EvPrint MsgExportDone, EvPrint (MsgFileName ''urbanisme_complet.geojson''),
         EvPrint (MsgFileName ''urbanisme_attributs.csv'')]
   \<and> rows kept_frame = [[Some ''D1'', Some ''POLYGON'']]
   \<and> rows attrs_frame = [[Some ''D1'']]"
proof -
  let ?srv = "srv_failing_at (0, 45, 1, 46)"
  let ?evs = "[EvPrint (MsgTotalTiles 2), EvPrint (MsgTile 1 2 (0, 45, 1, 46))]"
  have f: "?srv ?evs (0, 45, 1, 46) = None" by (simp add: srv_failing_at_def)
  have f': "?srv (events (initial_state 2) @ [EvPrint (MsgTile (0 + 1) 2 (0, 45, 1, 46))]) (0, 45, 1, 46) = None"
    by (simp add: srv_failing_at_def)
  note inst = fetch_failure_isolated[of ?srv ?evs "(0, 45, 1, 46)" 0 "initial_state 2" 0 2
      "[(1, 45, 2, 46)]"]
  have p: "process_tile ?srv (0, 45, 1, 46) 0 ?evs
      = ([], ?evs @ [EvFetch (0, 45, 1, 46), EvPrint (MsgError (0, 45, 1, 46))])"
    using inst f by blast
  have h: "harvest_loop ?srv 2 0 [(0, 45, 1, 46), (1, 45, 2, 46)] (initial_state 2)
      = harvest_loop ?srv 2 (0 + 1) [(1, 45, 2, 46)]
          ((initial_state 2)\<lparr>events := events (initial_state 2)
             @ [EvPrint (MsgTile (0 + 1) 2 (0, 45, 1, 46)), EvFetch (0, 45, 1, 46),
                EvPrint (MsgError (0, 45, 1, 46))]\<rparr>)"
    using inst f' by blast
  have s: "harvest_loop ?srv 2 0 [(0, 45, 1, 46), (1, 45, 2, 46)] (initial_state 2)
      = \<lparr>all_features = [kept_frame], total_collected = 1,
         events = [EvPrint (MsgTotalTiles 2), EvPrint (MsgTile 1 2 (0, 45, 1, 46)),
           EvFetch (0, 45, 1, 46), EvPrint (MsgError (0, 45, 1, 46)),
           EvPrint (MsgTile 2 2 (1, 45, 2, 46)), EvFetch (1, 45, 2, 46),
           EvPrint (MsgCollected 1 1), EvSleep 1]\<rparr>"
    unfolding h
    by (simp add: srv_failing_at_def get_features_def initial_state_def MAX_DEPTH_def
          MAX_FEATURES_def kept_small')
  have a: "all_features (harvest_loop ?srv 2 0 [(0, 45, 1, 46), (1, 45, 2, 46)] (initial_state 2))
      = [kept_frame]"
    unfolding s by simp
  have e: "export_block (harvest_loop ?srv 2 0 [(0, 45, 1, 46), (1, 45, 2, 46)] (initial_state 2))
      = [EvPrint (MsgTotalTiles 2), EvPrint (MsgTile 1 2 (0, 45, 1, 46)), EvFetch (0, 45, 1, 46),
         EvPrint (MsgError (0, 45, 1, 46)), EvPrint (MsgTile 2 2 (1, 45, 2, 46)),
         EvFetch (1, 45, 2, 46), EvPrint (MsgCollected 1 1), EvSleep 1, EvPrint (MsgFinal 1),
         EvToFile ''urbanisme_complet.geojson'' kept_frame,
         EvToCsv ''urbanisme_attributs.csv'' attrs_frame,
         EvPrint MsgExportDone, EvPrint (MsgFileName ''urbanisme_complet.geojson''),
         EvPrint (MsgFileName ''urbanisme_attributs.csv'')]"
    unfolding s by (simp add: export_block_def concat_kept drop_geometry_kept Let_def columns_kept)
  have r: "rows kept_frame = [[Some ''D1'', Some ''POLYGON'']]" "rows attrs_frame = [[Some ''D1'']]"
    by (simp_all add: kept_frame_def attrs_frame_def)
  from f p a e r show ?thesis by simp
qed



end
